theory Spec2Isabelle
  imports Main "HOL-Library.Multiset"
begin

section \<open>Data model of package promise\<close>

text \<open>
  The package is embedded as state-passing functions over an explicit store.

  \<^item> A \<^verbatim>\<open>*Promise[T]\<close> is an address into \<open>heap\<close>; allocation appends.
  \<^item> Go's \<^verbatim>\<open>error\<close> interface is \<open>error option\<close>, \<open>None\<close> being \<^verbatim>\<open>nil\<close>.
  \<^item> The type parameters \<^verbatim>\<open>T\<close> and \<^verbatim>\<open>X\<close> are instantiated by one value type \<open>'v\<close>, whose
    Go zero value is \<open>default\<close>. The \<^verbatim>\<open>struct{}{}\<close> returned by the closures of
    \<^verbatim>\<open>All\<close>, \<^verbatim>\<open>Race\<close> and \<^verbatim>\<open>Iterator\<close> is represented by \<open>default\<close> as well.
  \<^item> A function supplied by the caller may read and write the variables it has captured:
    it is a function on a user state \<open>'u\<close> (the field \<open>world\<close>). It cannot reach the
    promise heap.
  \<^item> The field \<open>invoked\<close> is a history variable, which the package does not have: it
    records every call of a function that was given to \<^verbatim>\<open>Then\<close> or \<^verbatim>\<open>Catch\<close>, with the
    promise it was made for and the argument it received. Nothing reads it.
  \<^item> A \<^verbatim>\<open>sync.Mutex\<close> is a boolean (held or not). \<^verbatim>\<open>Lock\<close> on a held mutex cannot
    proceed: the outcome is \<open>Blocked\<close>.
  \<^item> A nil pointer dereference is the outcome \<open>Panic\<close>.
\<close>

datatype error = NoPromises | ErrorString string

type_synonym goerror = "error option"

type_synonym pid = nat

datatype 'a outcome = Ok 'a | Panic | Blocked

fun obind :: "'a outcome \<Rightarrow> ('a \<Rightarrow> 'b outcome) \<Rightarrow> 'b outcome" where
  "obind (Ok x) k = k x"
| "obind Panic k = Panic"
| "obind Blocked k = Blocked"

text \<open>
  Values of type \<^verbatim>\<open>func(T) (X, error)\<close> and \<^verbatim>\<open>func(error) (X, error)\<close>: either a function
  of the caller, or one of the closures that \<^verbatim>\<open>All\<close>, \<^verbatim>\<open>Race\<close> and \<^verbatim>\<open>Iterator\<close> pass to
  \<^verbatim>\<open>Then\<close> and \<^verbatim>\<open>Catch\<close>, named by the variables they capture.
\<close>

datatype ('v, 'u) fnT =
    UserFn "'v \<Rightarrow> 'u \<Rightarrow> ('v \<times> goerror) \<times> 'u"
  | AllThenFn nat nat nat
  | RaceThenFn nat
  | IterThenFn nat

datatype ('v, 'u) fnE =
    UserErrFn "goerror \<Rightarrow> 'u \<Rightarrow> ('v \<times> goerror) \<times> 'u"
  | AllCatchFn nat
  | RaceCatchFn nat
  | IterCatchFn nat

text \<open>
  The elements of \<^verbatim>\<open>thenList\<close> (type \<^verbatim>\<open>func(T)\<close>) and of \<^verbatim>\<open>errorList\<close> (type
  \<^verbatim>\<open>func(error)\<close>). \<open>ThenHn\<close> and \<open>ThenCatchHn\<close> are the closures \<^verbatim>\<open>thenHn\<close> and
  \<^verbatim>\<open>catchHn\<close> of \<^verbatim>\<open>Then\<close>, \<open>CatchHn\<close> is the closure \<^verbatim>\<open>catchHn\<close> of \<^verbatim>\<open>Catch\<close>; each
  captures \<^verbatim>\<open>newPromise\<close>. \<open>RawThenHn\<close> and \<open>RawErrHn\<close> are functions pushed onto the
  lists directly, as the package's tests do.
\<close>

datatype ('v, 'u) thenhandler =
    ThenHn pid "('v, 'u) fnT"
  | RawThenHn "'v \<Rightarrow> 'u \<Rightarrow> 'u"

datatype ('v, 'u) errhandler =
    ThenCatchHn pid
  | CatchHn pid "('v, 'u) fnE"
  | RawErrHn "goerror \<Rightarrow> 'u \<Rightarrow> 'u"

record ('v, 'u) promise =
  lock :: bool
  notDone :: bool
  doneMu :: bool
  thenList :: "('v, 'u) thenhandler list option"
  errorList :: "('v, 'u) errhandler list option"
  res :: 'v
  err :: goerror

text \<open>
  The values of type \<^verbatim>\<open>func() (T, error)\<close> that reach \<^verbatim>\<open>call\<close>: the caller's function
  given to \<^verbatim>\<open>NewFn\<close>, and the five function literals of \<^verbatim>\<open>Then\<close> and \<^verbatim>\<open>Catch\<close> with
  their captured variables.
\<close>

datatype ('v, 'u) producer =
    UserProducer "'u \<Rightarrow> ('v \<times> goerror) \<times> 'u"
  | ThenHnBody "('v, 'u) fnT" 'v
  | ThenCatchHnBody goerror
  | CatchHnBody "('v, 'u) fnE" goerror
  | ThenDoneBody pid goerror 'v "('v, 'u) fnT"
  | CatchDoneBody pid goerror "('v, 'u) fnE"

text \<open>
  What is left to do in a handler pass: a detached handler with the argument it will
  receive, or the deferred \<^verbatim>\<open>p.doneMu.Unlock()\<close>.
\<close>

datatype ('v, 'u) work =
    WThen "('v, 'u) thenhandler" 'v
  | WErr "('v, 'u) errhandler" goerror
  | WUnlockDone pid

text \<open>
  Goroutines. \<open>GoCall p f\<close> is \<^verbatim>\<open>go p.call(f)\<close> before it has run; \<open>GoPass p r e tl el\<close>
  is the same goroutine between \<^verbatim>\<open>p.lock.Unlock()\<close> and \<^verbatim>\<open>p.doneMu.Lock()\<close>, with its
  local variables \<^verbatim>\<open>res\<close>, \<^verbatim>\<open>err\<close>, \<^verbatim>\<open>thenList\<close> and \<^verbatim>\<open>errorList\<close>. The three \<open>AllWorker\<close> stages are the function
  that \<^verbatim>\<open>All\<close> hands to \<^verbatim>\<open>wg.Go\<close>: before \<^verbatim>\<open>Then\<close>, before \<^verbatim>\<open>Catch\<close>, and at the
  receive from \<^verbatim>\<open>errChan\<close>.
\<close>

datatype ('v, 'u) goroutine =
    GoCall pid "('v, 'u) producer"
  | GoPass pid 'v goerror "('v, 'u) thenhandler list option" "('v, 'u) errhandler list option"
  | AllWorkerThen nat nat pid
  | AllWorkerCatch nat pid nat
  | AllWorkerRecv nat nat
  | GoDone

text \<open>
  The variables of one invocation that its closures capture. A channel holds the
  messages that senders have offered and no receiver has taken yet.
\<close>

record 'v all_frame =
  results :: "'v list"
  group_err :: goerror
  group_running :: nat

record 'v race_frame =
  race_done :: bool
  race_res :: 'v
  errorCh :: "goerror list"

record 'v iter_frame =
  iter_val :: 'v
  iter_err :: goerror
  waitCh :: "unit list"

datatype ('v, 'u) invocation =
    CalledThen pid "('v, 'u) fnT" 'v
  | CalledCatch pid "('v, 'u) fnE" goerror

fun called_for :: "('v, 'u) invocation \<Rightarrow> pid" where
  "called_for (CalledThen q f v) = q"
| "called_for (CalledCatch q f e) = q"

record ('v, 'u) state =
  heap :: "('v, 'u) promise list"
  pool :: "('v, 'u) goroutine list"
  world :: 'u
  alls :: "'v all_frame list"
  errChans :: "goerror list list"
  races :: "'v race_frame list"
  iters :: "'v iter_frame list"
  invoked :: "('v, 'u) invocation list"

section \<open>Mutexes\<close>

definition Lock :: "pid \<Rightarrow> ('v, 'u) state \<Rightarrow> ('v, 'u) state outcome" where
  "Lock p s =
     (if p < length (heap s) then
        (if lock (heap s ! p) then Blocked
         else Ok (s\<lparr>heap := (heap s)[p := (heap s ! p)\<lparr>lock := True\<rparr>]\<rparr>))
      else Panic)"

definition Unlock :: "pid \<Rightarrow> ('v, 'u) state \<Rightarrow> ('v, 'u) state" where
  "Unlock p s = s\<lparr>heap := (heap s)[p := (heap s ! p)\<lparr>lock := False\<rparr>]\<rparr>"

definition LockDone :: "pid \<Rightarrow> ('v, 'u) state \<Rightarrow> ('v, 'u) state outcome" where
  "LockDone p s =
     (if p < length (heap s) then
        (if doneMu (heap s ! p) then Blocked
         else Ok (s\<lparr>heap := (heap s)[p := (heap s ! p)\<lparr>doneMu := True\<rparr>]\<rparr>))
      else Panic)"

definition UnlockDone :: "pid \<Rightarrow> ('v, 'u) state \<Rightarrow> ('v, 'u) state" where
  "UnlockDone p s = s\<lparr>heap := (heap s)[p := (heap s ! p)\<lparr>doneMu := False\<rparr>]\<rparr>"


section \<open>Invoking the functions that promises hold\<close>

text \<open>
  The closures of the batch combinators, from \<^verbatim>\<open>promise_utils.go\<close>. A send on an
  unbuffered channel appends the message to the channel; that the sender then waits for the
  receiver is not represented.

  \<^item> \<open>AllThenFn a i c\<close>: \<^verbatim>\<open>*ptr = res; errChan <- nil\<close>, with \<^verbatim>\<open>ptr = &results[i]\<close>.
  \<^item> \<open>RaceThenFn r\<close>: \<^verbatim>\<open>if atomic.SwapUintptr(&done, 1) == 1 { return }; res = innerRes; errorCh <- nil\<close>.
  \<^item> \<open>IterThenFn k\<close>: \<^verbatim>\<open>val = res; waitCh <- struct{}{}\<close>.
\<close>

fun apply_fnT ::
  "('v::default, 'u) fnT \<Rightarrow> 'v \<Rightarrow> ('v, 'u) state \<Rightarrow> ('v \<times> goerror) \<times> ('v, 'u) state" where
  "apply_fnT (UserFn g) v s = (fst (g v (world s)), s\<lparr>world := snd (g v (world s))\<rparr>)"
| "apply_fnT (AllThenFn a i c) v s =
     ((default, None),
      s\<lparr>alls := (alls s)[a := (alls s ! a)\<lparr>results := (results (alls s ! a))[i := v]\<rparr>],
        errChans := (errChans s)[c := errChans s ! c @ [None]]\<rparr>)"
| "apply_fnT (RaceThenFn r) v s =
     (if race_done (races s ! r) then ((default, None), s)
      else ((default, None),
            s\<lparr>races := (races s)[r := (races s ! r)
                 \<lparr>race_done := True, race_res := v, errorCh := errorCh (races s ! r) @ [None]\<rparr>]\<rparr>))"
| "apply_fnT (IterThenFn k) v s =
     ((default, None),
      s\<lparr>iters := (iters s)[k := (iters s ! k)
           \<lparr>iter_val := v, waitCh := waitCh (iters s ! k) @ [()]\<rparr>]\<rparr>)"

fun apply_fnE ::
  "('v::default, 'u) fnE \<Rightarrow> goerror \<Rightarrow> ('v, 'u) state \<Rightarrow> ('v \<times> goerror) \<times> ('v, 'u) state" where
  "apply_fnE (UserErrFn g) e s = (fst (g e (world s)), s\<lparr>world := snd (g e (world s))\<rparr>)"
| "apply_fnE (AllCatchFn c) e s =
     ((default, None), s\<lparr>errChans := (errChans s)[c := errChans s ! c @ [e]]\<rparr>)"
| "apply_fnE (RaceCatchFn r) e s =
     (if race_done (races s ! r) then ((default, None), s)
      else ((default, None),
            s\<lparr>races := (races s)[r := (races s ! r)
                 \<lparr>race_done := True, errorCh := errorCh (races s ! r) @ [e]\<rparr>]\<rparr>))"
| "apply_fnE (IterCatchFn k) e s =
     ((default, None),
      s\<lparr>iters := (iters s)[k := (iters s ! k)
           \<lparr>iter_err := e, waitCh := waitCh (iters s ! k) @ [()]\<rparr>]\<rparr>)"

text \<open>
  Running a \<^verbatim>\<open>func() (T, error)\<close> for the promise \<open>q\<close> that \<^verbatim>\<open>call\<close> is settling. The two
  closures of the already-settled paths hold the source promise's \<^verbatim>\<open>doneMu\<close> while they
  run. Where a closure calls the function \<^verbatim>\<open>f\<close> that \<^verbatim>\<open>Then\<close> or \<^verbatim>\<open>Catch\<close> was given,
  \<open>note_invoked\<close> records it.
\<close>

definition note_invoked :: "('v, 'u) invocation \<Rightarrow> ('v, 'u) state \<Rightarrow> ('v, 'u) state" where
  "note_invoked q s = s\<lparr>invoked := invoked s @ [q]\<rparr>"

fun eval_producer ::
  "pid \<Rightarrow> ('v::default, 'u) producer \<Rightarrow> ('v, 'u) state \<Rightarrow>
   (('v \<times> goerror) \<times> ('v, 'u) state) outcome" where
  "eval_producer q (UserProducer g) s =
     Ok (fst (g (world s)), s\<lparr>world := snd (g (world s))\<rparr>)"
| "eval_producer q (ThenHnBody f v) s = Ok (apply_fnT f v (note_invoked (CalledThen q f v) s))"
| "eval_producer q (ThenCatchHnBody e) s = Ok ((default, e), s)"
| "eval_producer q (CatchHnBody f e) s = Ok (apply_fnE f e (note_invoked (CalledCatch q f e) s))"
| "eval_producer q (ThenDoneBody p e v f) s =
     obind (LockDone p s) (\<lambda>s1.
       if e \<noteq> None then Ok ((default, e), UnlockDone p s1)
       else Ok (fst (apply_fnT f v (note_invoked (CalledThen q f v) s1)),
                UnlockDone p (snd (apply_fnT f v (note_invoked (CalledThen q f v) s1)))))"
| "eval_producer q (CatchDoneBody p e f) s =
     obind (LockDone p s) (\<lambda>s1.
       Ok (fst (apply_fnE f e (note_invoked (CalledCatch q f e) s1)),
           UnlockDone p (snd (apply_fnE f e (note_invoked (CalledCatch q f e) s1)))))"

section \<open>The settlement engine\<close>

text \<open>
  \<open>call_settle\<close> is \<^verbatim>\<open>call\<close> up to \<^verbatim>\<open>p.lock.Unlock()\<close>: it runs the producing function
  and, holding \<^verbatim>\<open>p.lock\<close>, clears \<^verbatim>\<open>notDone\<close>, stores \<^verbatim>\<open>err\<close> and \<^verbatim>\<open>res\<close> and sets both
  list fields to nil. It returns the local variables \<^verbatim>\<open>res\<close>, \<^verbatim>\<open>err\<close>, \<^verbatim>\<open>thenList\<close>
  and \<^verbatim>\<open>errorList\<close>.
\<close>

definition call_settle ::
  "pid \<Rightarrow> ('v::default, 'u) producer \<Rightarrow> ('v, 'u) state \<Rightarrow>
   (('v \<times> goerror \<times> ('v, 'u) thenhandler list option \<times> ('v, 'u) errhandler list option)
    \<times> ('v, 'u) state) outcome" where
  "call_settle p f s =
     obind (eval_producer p f s) (\<lambda>(re, s1).
     obind (Lock p s1) (\<lambda>s2.
       Ok ((fst re, snd re, thenList (heap s2 ! p), errorList (heap s2 ! p)),
           Unlock p (s2\<lparr>heap := (heap s2)[p := (heap s2 ! p)
             \<lparr>notDone := False, err := snd re, res := fst re,
              thenList := None, errorList := None\<rparr>]\<rparr>))))"

text \<open>
  The handlers that the two loops of \<^verbatim>\<open>call\<close> will invoke, each with its argument.
  \<^verbatim>\<open>Front()\<close> on a nil list is a nil dereference.
\<close>

definition handlers_work ::
  "'v \<Rightarrow> goerror \<Rightarrow> ('v, 'u) thenhandler list option \<Rightarrow> ('v, 'u) errhandler list option \<Rightarrow>
   ('v, 'u) work list option" where
  "handlers_work r e thenL errorL =
     (if e \<noteq> None then map_option (map (\<lambda>h. WErr h e)) errorL
      else map_option (map (\<lambda>h. WThen h r)) thenL)"

definition pass_begin ::
  "pid \<Rightarrow> 'v \<Rightarrow> goerror \<Rightarrow> ('v, 'u) thenhandler list option \<Rightarrow> ('v, 'u) errhandler list option \<Rightarrow>
   ('v, 'u) state \<Rightarrow> (('v, 'u) work list \<times> ('v, 'u) state) outcome" where
  "pass_begin p r e thenL errorL s =
     obind (LockDone p s) (\<lambda>s1.
       case handlers_work r e thenL errorL of
         None \<Rightarrow> Panic
       | Some ws \<Rightarrow> Ok (ws @ [WUnlockDone p], s1))"

text \<open>
  One step of a handler pass. A handler made by \<^verbatim>\<open>Then\<close> or \<^verbatim>\<open>Catch\<close> calls
  \<^verbatim>\<open>newPromise.call\<close>; the handlers which that nested call detaches are put in front of
  the remaining work, so that they run before the next handler of the outer loop.
\<close>

fun exec_item ::
  "('v::default, 'u) work \<Rightarrow> ('v, 'u) state \<Rightarrow> (('v, 'u) work list \<times> ('v, 'u) state) outcome" where
  "exec_item (WThen (ThenHn q f) v) s =
     obind (call_settle q (ThenHnBody f v) s) (\<lambda>((r, e, thenL, errorL), s1).
       pass_begin q r e thenL errorL s1)"
| "exec_item (WThen (RawThenHn g) v) s = Ok ([], s\<lparr>world := g v (world s)\<rparr>)"
| "exec_item (WErr (ThenCatchHn q) e) s =
     obind (call_settle q (ThenCatchHnBody e) s) (\<lambda>((r, e', thenL, errorL), s1).
       pass_begin q r e' thenL errorL s1)"
| "exec_item (WErr (CatchHn q f) e) s =
     obind (call_settle q (CatchHnBody f e) s) (\<lambda>((r, e', thenL, errorL), s1).
       pass_begin q r e' thenL errorL s1)"
| "exec_item (WErr (RawErrHn g) e) s = Ok ([], s\<lparr>world := g e (world s)\<rparr>)"
| "exec_item (WUnlockDone p) s = Ok ([], UnlockDone p s)"


text \<open>
  The number of handlers that the promises still hold; with the weights below it
  decreases along a handler pass, so that \<open>run\<close> is total.
\<close>

definition queued :: "('v, 'u) promise \<Rightarrow> nat" where
  "queued pr =
     (case thenList pr of None \<Rightarrow> 0 | Some l \<Rightarrow> length l) +
     (case errorList pr of None \<Rightarrow> 0 | Some l \<Rightarrow> length l)"

definition heap_queued :: "('v, 'u) state \<Rightarrow> nat" where
  "heap_queued s = sum_list (map queued (heap s))"

fun work_weight :: "('v, 'u) work \<Rightarrow> nat" where
  "work_weight (WUnlockDone p) = 1"
| "work_weight (WThen h v) = 2"
| "work_weight (WErr h e) = 2"


lemma obind_Ok_iff: "obind m k = Ok y \<longleftrightarrow> (\<exists>x. m = Ok x \<and> k x = Ok y)"
  by (cases m) auto

lemma apply_fnT_heap [simp]: "heap (snd (apply_fnT f v s)) = heap s"
  by (cases f) auto

lemma apply_fnE_heap [simp]: "heap (snd (apply_fnE f e s)) = heap s"
  by (cases f) auto

lemma apply_fnT_heap': "apply_fnT f v s = (re, s1) \<Longrightarrow> heap s1 = heap s"
  using apply_fnT_heap [of f v s] by simp

lemma apply_fnE_heap': "apply_fnE f v s = (re, s1) \<Longrightarrow> heap s1 = heap s"
  using apply_fnE_heap [of f v s] by simp

lemma lock_False_same: "\<not> lock pr \<Longrightarrow> pr\<lparr>lock := False\<rparr> = pr"
  by (cases pr) simp

lemma doneMu_False_same: "\<not> doneMu pr \<Longrightarrow> pr\<lparr>doneMu := False\<rparr> = pr"
  by (cases pr) simp

lemma LockDone_Ok:
  "LockDone p s = Ok s1 \<longleftrightarrow>
     p < length (heap s) \<and> \<not> doneMu (heap s ! p) \<and>
     s1 = s\<lparr>heap := (heap s)[p := (heap s ! p)\<lparr>doneMu := True\<rparr>]\<rparr>"
  by (auto simp: LockDone_def)

lemma Lock_Ok:
  "Lock p s = Ok s1 \<longleftrightarrow>
     p < length (heap s) \<and> \<not> lock (heap s ! p) \<and>
     s1 = s\<lparr>heap := (heap s)[p := (heap s ! p)\<lparr>lock := True\<rparr>]\<rparr>"
  by (auto simp: Lock_def)

text \<open>A producing function leaves the heap as it found it.\<close>

lemma eval_producer_heap: "eval_producer q f s = Ok (re, s1) \<Longrightarrow> heap s1 = heap s"
  by (cases f)
    (auto simp: obind_Ok_iff LockDone_Ok UnlockDone_def list_update_same_conv doneMu_False_same
      note_invoked_def
      dest: apply_fnT_heap' apply_fnE_heap' split: if_splits)

lemma call_settle_heap:
  "call_settle p f s = Ok ((r, e, thl, erl), s') \<Longrightarrow>
     p < length (heap s) \<and> \<not> lock (heap s ! p) \<and>
     thl = thenList (heap s ! p) \<and> erl = errorList (heap s ! p) \<and>
     heap s' = (heap s)[p := (heap s ! p)
       \<lparr>notDone := False, err := e, res := r, thenList := None, errorList := None\<rparr>]"
  by (auto simp: call_settle_def obind_Ok_iff Lock_Ok Unlock_def lock_False_same
      dest!: eval_producer_heap)

lemma sum_list_map_update:
  "i < length xs \<Longrightarrow> sum_list (map f (xs[i := y])) + f (xs ! i) = sum_list (map f xs) + (f y :: nat)"
  by (induction xs arbitrary: i) (auto split: nat.splits)



lemma queued_settled [simp]: "queued (pr\<lparr>notDone := a, err := e, res := r, thenList := None, errorList := None\<rparr>) = 0"
  by (simp add: queued_def)

lemma queued_doneMu [simp]: "queued (pr\<lparr>doneMu := b\<rparr>) = queued pr"
  by (simp add: queued_def)

lemma call_settle_queued:
  assumes "call_settle p f s = Ok ((r, e, thl, erl), s')"
  shows "heap_queued s' + queued (heap s ! p) = heap_queued s"
  using call_settle_heap [OF assms] sum_list_map_update [of p "heap s" queued]
  by (simp add: heap_queued_def)

lemma LockDone_queued: "LockDone p s = Ok s1 \<Longrightarrow> heap_queued s1 = heap_queued s"
  using sum_list_map_update [of p "heap s" queued "(heap s ! p)\<lparr>doneMu := True\<rparr>"]
  by (auto simp: LockDone_Ok heap_queued_def)

lemma UnlockDone_queued: "heap_queued (UnlockDone p s) \<le> heap_queued s"
proof (cases "p < length (heap s)")
  case True
  then show ?thesis
    using sum_list_map_update [of p "heap s" queued "(heap s ! p)\<lparr>doneMu := False\<rparr>"]
    by (simp add: UnlockDone_def heap_queued_def)
next
  case False
  then show ?thesis by (simp add: UnlockDone_def heap_queued_def list_update_beyond)
qed

lemma handlers_work_weight:
  "handlers_work r e thl erl = Some ws \<Longrightarrow>
     sum_list (map work_weight ws) \<le>
       2 * ((case thl of None \<Rightarrow> 0 | Some l \<Rightarrow> length l) + (case erl of None \<Rightarrow> 0 | Some l \<Rightarrow> length l))"
  by (auto simp: handlers_work_def o_def sum_list_triv split: if_splits option.splits)

lemma pass_begin_measure:
  assumes "pass_begin q r e (thenList pr) (errorList pr) s1 = Ok (ws, s2)"
  shows "heap_queued s2 = heap_queued s1 \<and> sum_list (map work_weight ws) \<le> 2 * queued pr + 1"
  using assms handlers_work_weight [of r e "thenList pr" "errorList pr"]
  by (auto simp: pass_begin_def obind_Ok_iff queued_def dest: LockDone_queued split: option.splits)

lemma nested_call_measure:
  assumes "obind (call_settle q f s) (\<lambda>((r, e, thl, erl), s1). pass_begin q r e thl erl s1) = Ok (ws, s')"
  shows "3 * heap_queued s' + sum_list (map work_weight ws) < 3 * heap_queued s + 2"
proof -
  from assms obtain r e thl erl s1 where
    cs: "call_settle q f s = Ok ((r, e, thl, erl), s1)" and pb: "pass_begin q r e thl erl s1 = Ok (ws, s')"
    by (auto simp: obind_Ok_iff)
  from call_settle_heap [OF cs] have "thl = thenList (heap s ! q)" "erl = errorList (heap s ! q)" by auto
  with pb pass_begin_measure [of q r e "heap s ! q" s1 ws s'] call_settle_queued [OF cs]
  show ?thesis by auto
qed

lemma exec_item_measure:
  "exec_item w s = Ok (ws, s') \<Longrightarrow>
     3 * heap_queued s' + sum_list (map work_weight ws) < 3 * heap_queued s + work_weight w"
proof (induction w s rule: exec_item.induct)
  case (6 p s)
  then show ?case using UnlockDone_queued [of p s] by auto
qed (auto dest: nested_call_measure simp: heap_queued_def)

text \<open>
  The handler pass: the two loops of \<^verbatim>\<open>call\<close>, and below them the calls that the
  handlers make, until the deferred unlock has run.
\<close>

function run :: "('v::default, 'u) work list \<Rightarrow> ('v, 'u) state \<Rightarrow> ('v, 'u) state outcome" where
  "run [] s = Ok s"
| "run (w # ws) s =
     (case exec_item w s of
        Ok (ws', s') \<Rightarrow> run (ws' @ ws) s'
      | Panic \<Rightarrow> Panic
      | Blocked \<Rightarrow> Blocked)"
  by pat_completeness auto
termination run
  by (relation "measure (\<lambda>(ws, s). 3 * heap_queued s + sum_list (map work_weight ws))")
    (auto dest: exec_item_measure)


text \<open>
  \<open>call_pass\<close> is the rest of \<^verbatim>\<open>call\<close>, from \<^verbatim>\<open>p.doneMu.Lock()\<close> on, and \<open>call\<close> is
  the whole method.
\<close>

definition call_pass ::
  "pid \<Rightarrow> 'v::default \<Rightarrow> goerror \<Rightarrow> ('v, 'u) thenhandler list option \<Rightarrow>
   ('v, 'u) errhandler list option \<Rightarrow> ('v, 'u) state \<Rightarrow> ('v, 'u) state outcome" where
  "call_pass p r e thenL errorL s =
     obind (pass_begin p r e thenL errorL s) (\<lambda>(ws, s1). run ws s1)"

definition call ::
  "pid \<Rightarrow> ('v::default, 'u) producer \<Rightarrow> ('v, 'u) state \<Rightarrow> ('v, 'u) state outcome" where
  "call p f s =
     obind (call_settle p f s) (\<lambda>((r, e, thenL, errorL), s1). call_pass p r e thenL errorL s1)"

section \<open>Resolve and the constructors\<close>

record 'v PromiseResolution =
  Result :: 'v
  Error :: goerror

definition Resolve ::
  "pid \<Rightarrow> ('v, 'u) state \<Rightarrow> ('v PromiseResolution option \<times> ('v, 'u) state) outcome" where
  "Resolve p s =
     obind (Lock p s) (\<lambda>s1.
       if notDone (heap s1 ! p) then Ok (None, Unlock p s1)
       else Ok (Some \<lparr>Result = res (heap s1 ! p), Error = err (heap s1 ! p)\<rparr>, Unlock p s1))"

text \<open>The struct \<^verbatim>\<open>Promise[T]{}\<close> with every field at its zero value.\<close>

definition zero_promise :: "('v::default, 'u) promise" where
  "zero_promise =
     \<lparr>lock = False, notDone = False, doneMu = False, thenList = None, errorList = None,
      res = default, err = None\<rparr>"

definition new_promise ::
  "('v, 'u) promise \<Rightarrow> ('v, 'u) state \<Rightarrow> pid \<times> ('v, 'u) state" where
  "new_promise pr s = (length (heap s), s\<lparr>heap := heap s @ [pr]\<rparr>)"

definition go :: "('v, 'u) goroutine \<Rightarrow> ('v, 'u) state \<Rightarrow> ('v, 'u) state" where
  "go g s = s\<lparr>pool := pool s @ [g]\<rparr>"

definition NewFn ::
  "('v::default, 'u) producer \<Rightarrow> ('v, 'u) state \<Rightarrow> pid \<times> ('v, 'u) state" where
  "NewFn f s =
     (let (p, s1) = new_promise
            (zero_promise\<lparr>notDone := True, errorList := Some [], thenList := Some []\<rparr>) s
      in (p, go (GoCall p f) s1))"

text \<open>
  \<^verbatim>\<open>NewFnWithArg\<close> is in the revision of \<^verbatim>\<open>promise.go\<close> kept under \<^verbatim>\<open>src/unnamed\<close>:
  \<^verbatim>\<open>return NewFn(func() (X, error) { return f(arg) })\<close>.
\<close>

definition NewFnWithArg ::
  "'a \<Rightarrow> ('a \<Rightarrow> 'u \<Rightarrow> ('v \<times> goerror) \<times> 'u) \<Rightarrow> ('v::default, 'u) state \<Rightarrow> pid \<times> ('v, 'u) state" where
  "NewFnWithArg arg f s = NewFn (UserProducer (\<lambda>w. f arg w)) s"

definition NewResolved :: "'v::default \<Rightarrow> ('v, 'u) state \<Rightarrow> pid \<times> ('v, 'u) state" where
  "NewResolved result s = new_promise (zero_promise\<lparr>res := result\<rparr>) s"

definition NewRejected :: "goerror \<Rightarrow> ('v::default, 'u) state \<Rightarrow> pid \<times> ('v, 'u) state" where
  "NewRejected e s = new_promise (zero_promise\<lparr>err := e\<rparr>) s"

section \<open>Then and Catch\<close>

text \<open>\<^verbatim>\<open>PushBack\<close> on a nil list is a nil dereference.\<close>

definition Then ::
  "pid \<Rightarrow> ('v::default, 'u) fnT \<Rightarrow> ('v, 'u) state \<Rightarrow> (pid \<times> ('v, 'u) state) outcome" where
  "Then p f s =
     obind (Lock p s) (\<lambda>s1.
       let done = \<not> notDone (heap s1 ! p); r = res (heap s1 ! p); e = err (heap s1 ! p) in
       if \<not> done then
         (let newPromise = fst (new_promise
                (zero_promise\<lparr>notDone := True, errorList := Some [], thenList := Some []\<rparr>) s1);
              s2 = snd (new_promise
                (zero_promise\<lparr>notDone := True, errorList := Some [], thenList := Some []\<rparr>) s1)
          in case thenList (heap s2 ! p) of
               None \<Rightarrow> Panic
             | Some thl \<Rightarrow>
                 (let s3 = s2\<lparr>heap := (heap s2)[p := (heap s2 ! p)
                             \<lparr>thenList := Some (thl @ [ThenHn newPromise f])\<rparr>]\<rparr>
                  in case errorList (heap s3 ! p) of
                       None \<Rightarrow> Panic
                     | Some erl \<Rightarrow>
                         Ok (newPromise,
                             Unlock p (s3\<lparr>heap := (heap s3)[p := (heap s3 ! p)
                               \<lparr>errorList := Some (erl @ [ThenCatchHn newPromise])\<rparr>]\<rparr>))))
       else Ok (NewFn (ThenDoneBody p e r f) (Unlock p s1)))"

definition Catch ::
  "pid \<Rightarrow> ('v::default, 'u) fnE \<Rightarrow> ('v, 'u) state \<Rightarrow> (pid \<times> ('v, 'u) state) outcome" where
  "Catch p f s =
     obind (Lock p s) (\<lambda>s1.
       let done = \<not> notDone (heap s1 ! p); e = err (heap s1 ! p);
           newPromise = fst (new_promise
             (zero_promise\<lparr>notDone := True, errorList := Some [], thenList := Some []\<rparr>) s1);
           s2 = snd (new_promise
             (zero_promise\<lparr>notDone := True, errorList := Some [], thenList := Some []\<rparr>) s1)
       in
       if \<not> done then
         (case errorList (heap s2 ! p) of
            None \<Rightarrow> Panic
          | Some erl \<Rightarrow>
              Ok (newPromise,
                  Unlock p (s2\<lparr>heap := (heap s2)[p := (heap s2 ! p)
                    \<lparr>errorList := Some (erl @ [CatchHn newPromise f])\<rparr>]\<rparr>)))
       else
         (let s3 = Unlock p s2 in
          if e = None then
            Ok (newPromise,
                s3\<lparr>heap := (heap s3)[newPromise := (heap s3 ! newPromise)\<lparr>notDone := False\<rparr>]\<rparr>)
          else Ok (newPromise, go (GoCall newPromise (CatchDoneBody p e f)) s3)))"


section \<open>Goroutines and schedules\<close>

text \<open>
  Concurrency is interleaving at the granularity of the mutex-protected regions: a step
  of a goroutine runs one region to its end. \<^verbatim>\<open>go p.call(f)\<close> takes two steps, the
  producing function with the region under \<^verbatim>\<open>p.lock\<close>, and the region under
  \<^verbatim>\<open>p.doneMu\<close>. A schedule is the list of the goroutines that step, by their position
  in \<open>pool\<close>; a step of a goroutine that has finished, or that waits at an empty
  channel, changes nothing.

  \<open>group_done\<close> is what \<^verbatim>\<open>errgroup.Group\<close> does when the function given to \<^verbatim>\<open>Go\<close>
  returns: the first non-nil error is kept, and the group has one goroutine less to wait
  for.
\<close>

definition group_done :: "nat \<Rightarrow> goerror \<Rightarrow> ('v, 'u) state \<Rightarrow> ('v, 'u) state" where
  "group_done a m s =
     s\<lparr>alls := (alls s)[a := (alls s ! a)
         \<lparr>group_err := (if m \<noteq> None \<and> group_err (alls s ! a) = None then m
                        else group_err (alls s ! a)),
          group_running := group_running (alls s ! a) - 1\<rparr>]\<rparr>"

fun step_goroutine ::
  "('v::default, 'u) goroutine \<Rightarrow> ('v, 'u) state \<Rightarrow> (('v, 'u) goroutine \<times> ('v, 'u) state) outcome" where
  "step_goroutine (GoCall p f) s =
     obind (call_settle p f s) (\<lambda>((r, e, thenL, errorL), s1). Ok (GoPass p r e thenL errorL, s1))"
| "step_goroutine (GoPass p r e thenL errorL) s =
     obind (call_pass p r e thenL errorL s) (\<lambda>s1. Ok (GoDone, s1))"
| "step_goroutine (AllWorkerThen a i x) s =
     obind (Then x (AllThenFn a i (length (errChans s))) (s\<lparr>errChans := errChans s @ [[]]\<rparr>))
       (\<lambda>(q, s1). Ok (AllWorkerCatch a x (length (errChans s)), s1))"
| "step_goroutine (AllWorkerCatch a x c) s =
     obind (Catch x (AllCatchFn c) s) (\<lambda>(q, s1). Ok (AllWorkerRecv a c, s1))"
| "step_goroutine (AllWorkerRecv a c) s =
     (case errChans s ! c of
        [] \<Rightarrow> Ok (AllWorkerRecv a c, s)
      | m # ms \<Rightarrow> Ok (GoDone, group_done a m (s\<lparr>errChans := (errChans s)[c := ms]\<rparr>)))"
| "step_goroutine GoDone s = Ok (GoDone, s)"

definition sched_step :: "nat \<Rightarrow> ('v::default, 'u) state \<Rightarrow> ('v, 'u) state outcome" where
  "sched_step i s =
     (if i < length (pool s) then
        obind (step_goroutine (pool s ! i) s) (\<lambda>(g, s1). Ok (s1\<lparr>pool := (pool s1)[i := g]\<rparr>))
      else Ok s)"

fun run_sched :: "nat list \<Rightarrow> ('v::default, 'u) state \<Rightarrow> ('v, 'u) state outcome" where
  "run_sched [] s = Ok s"
| "run_sched (i # sched) s = obind (sched_step i s) (run_sched sched)"

text \<open>
  A caller blocked until \<open>ready\<close> holds: the goroutines step as the schedule says, and the
  caller goes on at the first state where \<open>ready\<close> holds. \<open>Blocked\<close> is the outcome when
  the schedule ends before that.
\<close>

fun await ::
  "(('v::default, 'u) state \<Rightarrow> bool) \<Rightarrow> nat list \<Rightarrow> ('v, 'u) state \<Rightarrow> ('v, 'u) state outcome" where
  "await ready [] s = (if ready s then Ok s else Blocked)"
| "await ready (i # sched) s =
     (if ready s then Ok s else obind (sched_step i s) (await ready sched))"

fun finished :: "('v, 'u) goroutine \<Rightarrow> bool" where
  "finished GoDone = True"
| "finished g = False"

definition quiescent :: "('v, 'u) state \<Rightarrow> bool" where
  "quiescent s = list_all finished (pool s)"

section \<open>The batch combinators\<close>

text \<open>
  \<^verbatim>\<open>All\<close>: the slice \<^verbatim>\<open>results\<close>, one goroutine of the group for each promise, and
  \<^verbatim>\<open>wg.Wait()\<close>.
\<close>

definition All_begin :: "pid list \<Rightarrow> ('v::default, 'u) state \<Rightarrow> nat \<times> ('v, 'u) state" where
  "All_begin promises s =
     (length (alls s),
      s\<lparr>alls := alls s @
           [\<lparr>results = replicate (length promises) default, group_err = None,
             group_running = length promises\<rparr>],
        pool := pool s @
           map (\<lambda>i. AllWorkerThen (length (alls s)) i (promises ! i)) [0..<length promises]\<rparr>)"

definition All ::
  "pid list \<Rightarrow> nat list \<Rightarrow> ('v::default, 'u) state \<Rightarrow> (('v list \<times> goerror) \<times> ('v, 'u) state) outcome" where
  "All promises sched s =
     (let (a, s1) = All_begin promises s in
      obind (await (\<lambda>t. group_running (alls t ! a) = 0) sched s1) (\<lambda>s2.
        Ok ((results (alls s2 ! a), group_err (alls s2 ! a)), s2)))"

text \<open>
  \<^verbatim>\<open>Race\<close> and the slow path of the iterator call \<^verbatim>\<open>Then\<close> and \<^verbatim>\<open>Catch\<close> themselves.
  Their schedule is a list of chunks: one chunk of goroutine steps runs before each of
  these calls, and the rest runs while the caller waits at its channel.
\<close>

fun next_chunk :: "nat list list \<Rightarrow> nat list \<times> nat list list" where
  "next_chunk [] = ([], [])"
| "next_chunk (c # cs) = (c, cs)"

fun race_loop ::
  "nat \<Rightarrow> pid list \<Rightarrow> nat list list \<Rightarrow> ('v::default, 'u) state \<Rightarrow>
   (nat list list \<times> ('v, 'u) state) outcome" where
  "race_loop r [] cs s = Ok (cs, s)"
| "race_loop r (p # ps) cs s =
     obind (run_sched (fst (next_chunk cs)) s) (\<lambda>s1.
     obind (Then p (RaceThenFn r) s1) (\<lambda>(q1, s2).
     obind (run_sched (fst (next_chunk (snd (next_chunk cs)))) s2) (\<lambda>s3.
     obind (Catch p (RaceCatchFn r) s3) (\<lambda>(q2, s4).
       race_loop r ps (snd (next_chunk (snd (next_chunk cs)))) s4))))"

text \<open>
  In \<^verbatim>\<open>return res, <-errorCh\<close> the variable is read after the receive, as the package's
  tests expect.
\<close>

definition Race ::
  "pid list \<Rightarrow> nat list list \<Rightarrow> ('v::default, 'u) state \<Rightarrow> (('v \<times> goerror) \<times> ('v, 'u) state) outcome" where
  "Race promises sched s =
     (if length promises = 0 then Ok ((default, Some NoPromises), s)
      else
        (let r = length (races s);
             s0 = s\<lparr>races := races s @ [\<lparr>race_done = False, race_res = default, errorCh = []\<rparr>]\<rparr>
         in
         obind (race_loop r promises sched s0) (\<lambda>(cs, s1).
         obind (await (\<lambda>t. errorCh (races t ! r) \<noteq> []) (concat cs) s1) (\<lambda>s2.
           Ok ((race_res (races s2 ! r), hd (errorCh (races s2 ! r))),
               s2\<lparr>races := (races s2)[r := (races s2 ! r)
                 \<lparr>errorCh := tl (errorCh (races s2 ! r))\<rparr>]\<rparr>)))))"

text \<open>
  \<^verbatim>\<open>Iterator\<close> returns a closure over \<^verbatim>\<open>index\<close> and \<^verbatim>\<open>promises\<close>; \<open>iter_next\<close> is a call
  of that closure, returning the closure's new variables with the results
  \<^verbatim>\<open>(val, end, err)\<close>. The named results \<^verbatim>\<open>val\<close> and \<^verbatim>\<open>err\<close> are captured only on the
  hook path, where they get their frame.
\<close>

record iterator =
  index :: nat
  promises :: "pid list"

definition Iterator :: "pid list \<Rightarrow> iterator" where
  "Iterator ps = \<lparr>index = 0, promises = ps\<rparr>"

definition iter_next ::
  "iterator \<Rightarrow> nat list list \<Rightarrow> ('v::default, 'u) state \<Rightarrow>
   (('v \<times> bool \<times> goerror) \<times> iterator \<times> ('v, 'u) state) outcome" where
  "iter_next it sched s =
     (if index it = length (promises it) then Ok ((default, True, None), it, s)
      else
        obind (Resolve (promises it ! index it) s) (\<lambda>(resolution, s1).
          case resolution of
            Some rs \<Rightarrow> Ok ((Result rs, False, Error rs), it\<lparr>index := index it + 1\<rparr>, s1)
          | None \<Rightarrow>
              (let k = length (iters s1);
                   s2 = s1\<lparr>iters := iters s1 @ [\<lparr>iter_val = default, iter_err = None, waitCh = []\<rparr>]\<rparr>
               in
               obind (run_sched (fst (next_chunk sched)) s2) (\<lambda>s3.
               obind (Then (promises it ! index it) (IterThenFn k) s3) (\<lambda>(q1, s4).
               obind (run_sched (fst (next_chunk (snd (next_chunk sched)))) s4) (\<lambda>s5.
               obind (Catch (promises it ! index it) (IterCatchFn k) s5) (\<lambda>(q2, s6).
               obind (await (\<lambda>t. waitCh (iters t ! k) \<noteq> [])
                        (concat (snd (next_chunk (snd (next_chunk sched))))) s6) (\<lambda>s7.
                 Ok ((iter_val (iters s7 ! k), False, iter_err (iters s7 ! k)),
                     it\<lparr>index := index it + 1\<rparr>,
                     s7\<lparr>iters := (iters s7)[k := (iters s7 ! k)
                       \<lparr>waitCh := tl (waitCh (iters s7 ! k))\<rparr>]\<rparr>)))))))))"

section \<open>Zero values used in the examples\<close>

instantiation int :: default
begin
definition default_int :: int where "default_int = 0"
instance ..
end

instantiation list :: (type) default
begin
definition default_list :: "'a list" where "default_list = []"
instance ..
end

definition init_state :: "'u \<Rightarrow> ('v, 'u) state" where
  "init_state w =
     \<lparr>heap = [], pool = [], world = w, alls = [], errChans = [], races = [], iters = [],
      invoked = []\<rparr>"


section \<open>What the operations do on a promise that nobody holds locked\<close>

text \<open>The promise that \<^verbatim>\<open>NewFn\<close>, \<^verbatim>\<open>Then\<close> and \<^verbatim>\<open>Catch\<close> allocate.\<close>

definition fresh_promise :: "('v::default, 'u) promise" where
  "fresh_promise = zero_promise\<lparr>notDone := True, errorList := Some [], thenList := Some []\<rparr>"

lemma state_heap_same [simp]: "s\<lparr>heap := heap s\<rparr> = s"
  by (cases s) simp

lemma Lock_Unlock:
  "p < length (heap s) \<Longrightarrow> \<not> lock (heap s ! p) \<Longrightarrow>
   obind (Lock p s) (\<lambda>s1. k (Unlock p s1)) = k s"
  by (simp add: Lock_def Unlock_def lock_False_same)

lemma Resolve_simp:
  "p < length (heap s) \<Longrightarrow> \<not> lock (heap s ! p) \<Longrightarrow>
   Resolve p s =
     Ok (if notDone (heap s ! p) then None
         else Some \<lparr>Result = res (heap s ! p), Error = err (heap s ! p)\<rparr>, s)"
  by (simp add: Resolve_def Lock_def Unlock_def lock_False_same)

lemma Then_done:
  "p < length (heap s) \<Longrightarrow> \<not> lock (heap s ! p) \<Longrightarrow> \<not> notDone (heap s ! p) \<Longrightarrow>
   Then p f s = Ok (NewFn (ThenDoneBody p (err (heap s ! p)) (res (heap s ! p)) f) s)"
  by (simp add: Then_def Lock_def Unlock_def lock_False_same Let_def)

lemma Then_pending:
  "p < length (heap s) \<Longrightarrow> \<not> lock (heap s ! p) \<Longrightarrow> notDone (heap s ! p) \<Longrightarrow>
   thenList (heap s ! p) = Some thl \<Longrightarrow> errorList (heap s ! p) = Some erl \<Longrightarrow>
   Then p f s =
     Ok (length (heap s),
         s\<lparr>heap := (heap s)[p := (heap s ! p)
              \<lparr>thenList := Some (thl @ [ThenHn (length (heap s)) f]),
               errorList := Some (erl @ [ThenCatchHn (length (heap s))])\<rparr>] @ [fresh_promise]\<rparr>)"
  apply (simp add: Then_def Lock_def Unlock_def Let_def new_promise_def nth_append list_update_append fresh_promise_def)
  apply (cases "heap s ! p")
  apply simp
  done

lemma Catch_pending:
  "p < length (heap s) \<Longrightarrow> \<not> lock (heap s ! p) \<Longrightarrow> notDone (heap s ! p) \<Longrightarrow>
   errorList (heap s ! p) = Some erl \<Longrightarrow>
   Catch p f s =
     Ok (length (heap s),
         s\<lparr>heap := (heap s)[p := (heap s ! p)
              \<lparr>errorList := Some (erl @ [CatchHn (length (heap s)) f])\<rparr>] @ [fresh_promise]\<rparr>)"
  apply (simp add: Catch_def Lock_def Unlock_def Let_def new_promise_def nth_append list_update_append fresh_promise_def)
  apply (cases "heap s ! p")
  apply simp
  done

lemma Catch_done_nil:
  "p < length (heap s) \<Longrightarrow> \<not> lock (heap s ! p) \<Longrightarrow> \<not> notDone (heap s ! p) \<Longrightarrow>
   err (heap s ! p) = None \<Longrightarrow>
   Catch p f s = Ok (length (heap s), s\<lparr>heap := heap s @ [fresh_promise\<lparr>notDone := False\<rparr>]\<rparr>)"
  apply (simp add: Catch_def Lock_def Unlock_def Let_def new_promise_def nth_append list_update_append fresh_promise_def lock_False_same)
  done

lemma Catch_done_err:
  "p < length (heap s) \<Longrightarrow> \<not> lock (heap s ! p) \<Longrightarrow> \<not> notDone (heap s ! p) \<Longrightarrow>
   err (heap s ! p) = Some e \<Longrightarrow>
   Catch p f s =
     Ok (length (heap s),
         s\<lparr>heap := heap s @ [fresh_promise],
           pool := pool s @ [GoCall (length (heap s)) (CatchDoneBody p (Some e) f)]\<rparr>)"
  apply (simp add: Catch_def Lock_def Unlock_def Let_def new_promise_def nth_append list_update_append fresh_promise_def lock_False_same go_def)
  done

lemma NewFn_simp:
  "NewFn f s = (length (heap s), s\<lparr>heap := heap s @ [fresh_promise], pool := pool s @ [GoCall (length (heap s)) f]\<rparr>)"
  by (simp add: NewFn_def new_promise_def go_def fresh_promise_def)

lemma apply_fnT_heap_update:
  "apply_fnT f v (s\<lparr>heap := h\<rparr>) = (fst (apply_fnT f v s), (snd (apply_fnT f v s))\<lparr>heap := h\<rparr>)"
  by (cases f) auto

lemma apply_fnE_heap_update:
  "apply_fnE f v (s\<lparr>heap := h\<rparr>) = (fst (apply_fnE f v s), (snd (apply_fnE f v s))\<lparr>heap := h\<rparr>)"
  by (cases f) auto

lemma note_invoked_heap_update:
  "note_invoked q (s\<lparr>heap := h\<rparr>) = (note_invoked q s)\<lparr>heap := h\<rparr>"
  by (simp add: note_invoked_def)

lemma heap_note_invoked [simp]: "heap (note_invoked q s) = heap s"
  by (simp add: note_invoked_def)

lemma state_heap_eq: "heap t = h \<Longrightarrow> t\<lparr>heap := h\<rparr> = t"
  by (cases t) auto

lemma eval_producer_ThenDoneBody:
  "p < length (heap s) \<Longrightarrow> \<not> doneMu (heap s ! p) \<Longrightarrow>
   eval_producer q (ThenDoneBody p e v f) s =
     Ok (if e \<noteq> None then ((default, e), s) else apply_fnT f v (note_invoked (CalledThen q f v) s))"
  by (simp add: LockDone_def UnlockDone_def apply_fnT_heap_update note_invoked_heap_update
      doneMu_False_same state_heap_eq)

lemma eval_producer_CatchDoneBody:
  "p < length (heap s) \<Longrightarrow> \<not> doneMu (heap s ! p) \<Longrightarrow>
   eval_producer q (CatchDoneBody p e f) s = Ok (apply_fnE f e (note_invoked (CalledCatch q f e) s))"
  by (simp add: LockDone_def UnlockDone_def apply_fnE_heap_update note_invoked_heap_update
      doneMu_False_same state_heap_eq)

lemma call_settle_simp:
  "eval_producer q f s = Ok ((r, e), s1) \<Longrightarrow> q < length (heap s) \<Longrightarrow> \<not> lock (heap s ! q) \<Longrightarrow>
   call_settle q f s =
     Ok ((r, e, thenList (heap s ! q), errorList (heap s ! q)),
         s1\<lparr>heap := (heap s)[q := (heap s ! q)
           \<lparr>notDone := False, err := e, res := r, thenList := None, errorList := None\<rparr>]\<rparr>)"
  apply (frule eval_producer_heap)
  apply (simp add: call_settle_def Lock_def Unlock_def lock_False_same)
  done

lemma zero_promise_simps [simp]:
  "lock zero_promise = False" "notDone zero_promise = False" "doneMu zero_promise = False"
  "thenList zero_promise = None" "errorList zero_promise = None"
  "res zero_promise = default" "err zero_promise = None"
  by (simp_all add: zero_promise_def)

lemma fresh_promise_simps [simp]:
  "lock fresh_promise = False" "notDone fresh_promise = True" "doneMu fresh_promise = False"
  "thenList fresh_promise = Some []" "errorList fresh_promise = Some []"
  "res fresh_promise = default" "err fresh_promise = None"
  by (simp_all add: fresh_promise_def)

lemma call_settle_simp2:
  assumes "q < length (heap s)" "\<not> lock (heap s ! q)"
  shows "call_settle q f s =
     obind (eval_producer q f s) (\<lambda>(re, s1).
       Ok ((fst re, snd re, thenList (heap s ! q), errorList (heap s ! q)),
           s1\<lparr>heap := (heap s)[q := (heap s ! q)
             \<lparr>notDone := False, err := snd re, res := fst re, thenList := None, errorList := None\<rparr>]\<rparr>))"
proof (cases "eval_producer q f s")
  case (Ok x)
  obtain re s1 where x: "x = (re, s1)" by (cases x)
  with Ok eval_producer_heap [of q f s re s1] have "heap s1 = heap s" by simp
  with Ok x assms show ?thesis
    by (simp add: call_settle_def Lock_def Unlock_def lock_False_same)
qed (simp_all add: call_settle_def)

lemma apply_fnT_UserFn_fields [simp]:
  "pool (snd (apply_fnT f v s)) = pool s"
  "invoked (snd (apply_fnT f v s)) = invoked s"
  by (cases f; simp)+

lemma apply_fnE_fields [simp]:
  "pool (snd (apply_fnE f v s)) = pool s"
  "invoked (snd (apply_fnE f v s)) = invoked s"
  by (cases f; simp)+

lemma sched_step_GoCall:
  assumes "i < length (pool s)" "pool s ! i = GoCall q f" "q < length (heap s)" "\<not> lock (heap s ! q)"
    and "eval_producer q f s = Ok ((r, e), s1)"
  shows "sched_step i s =
     Ok (s1\<lparr>heap := (heap s)[q := (heap s ! q)
            \<lparr>notDone := False, err := e, res := r, thenList := None, errorList := None\<rparr>],
          pool := (pool s1)[i := GoPass q r e (thenList (heap s ! q)) (errorList (heap s ! q))]\<rparr>)"
  using assms by (simp add: sched_step_def call_settle_simp)

section \<open>Race with no promises\<close>

text \<open>
  Claim C6. \<^verbatim>\<open>Race\<close> called with no promises returns the zero value of the result type
  together with the sentinel error \<open>NoPromises\<close>. It does so under every schedule, the
  empty one included, and leaves the state as it was: it blocks on nothing.
\<close>

theorem Race_no_promises:
  "Race [] sched s = Ok ((default, Some NoPromises), s)"
  by (simp add: Race_def)


section \<open>The zero value of the struct\<close>

text \<open>
  Claim C8. A promise whose fields all have their zero values is settled successfully
  with the zero value of \<^verbatim>\<open>T\<close>: \<^verbatim>\<open>Resolve\<close> returns the resolution \<open>(default, nil)\<close>; it is
  the very struct that \<^verbatim>\<open>NewResolved\<close> builds for the zero value, so that no operation can
  tell the two apart; \<^verbatim>\<open>Then\<close> takes its already-settled path, whose closure calls the
  handler with the zero value; \<^verbatim>\<open>Catch\<close> returns a settled promise and starts nothing;
  the iterator returns the zero value on its fast path.
\<close>

theorem zero_value_promise_is_settled:
  fixes s :: "('v::default, 'u) state"
  assumes "p < length (heap s)" and "heap s ! p = zero_promise"
  shows "Resolve p s = Ok (Some \<lparr>Result = default, Error = None\<rparr>, s) \<and>
         new_promise zero_promise s = NewResolved default s \<and>
         Then p f s = Ok (NewFn (ThenDoneBody p None default f) s) \<and>
         eval_producer q (ThenDoneBody p None default f) s = Ok (apply_fnT f default (note_invoked (CalledThen q f default) s)) \<and>
         Catch p g s = Ok (length (heap s), s\<lparr>heap := heap s @ [fresh_promise\<lparr>notDone := False\<rparr>]\<rparr>) \<and>
         (index it < length (promises it) \<and> promises it ! index it = p \<longrightarrow>
            iter_next it sched s = Ok ((default, False, None), it\<lparr>index := index it + 1\<rparr>, s))"
proof -
  have z: "(zero_promise :: ('v, 'u) promise)\<lparr>res := default\<rparr> = zero_promise"
    by (simp add: zero_promise_def)
  have 1: "Resolve p s = Ok (Some \<lparr>Result = default, Error = None\<rparr>, s)"
    using assms by (simp add: Resolve_simp)
  have 2: "new_promise zero_promise s = NewResolved default s"
    by (simp add: NewResolved_def z)
  have 3: "Then p f s = Ok (NewFn (ThenDoneBody p None default f) s)"
    using assms by (simp add: Then_done)
  have 4: "eval_producer q (ThenDoneBody p None default f) s = Ok (apply_fnT f default (note_invoked (CalledThen q f default) s))"
    using assms eval_producer_ThenDoneBody [of p s q None default f] by simp
  have 5: "Catch p g s = Ok (length (heap s), s\<lparr>heap := heap s @ [fresh_promise\<lparr>notDone := False\<rparr>]\<rparr>)"
    using assms by (simp add: Catch_done_nil)
  have 6: "index it < length (promises it) \<and> promises it ! index it = p \<longrightarrow>
            iter_next it sched s = Ok ((default, False, None), it\<lparr>index := index it + 1\<rparr>, s)"
    using 1 by (auto simp: iter_next_def)
  from 1 2 3 4 5 6 show ?thesis by blast
qed

theorem zero_value_promise_witness:
  "Resolve 0 (snd (new_promise (zero_promise :: (int, nat) promise) (init_state 0))) =
     Ok (Some \<lparr>Result = 0, Error = None\<rparr>, snd (new_promise zero_promise (init_state 0))) \<and>
   iter_next (Iterator [0]) [] (snd (new_promise (zero_promise :: (int, nat) promise) (init_state 0))) =
     Ok ((0, False, None), \<lparr>index = 1, promises = [0]\<rparr>, snd (new_promise zero_promise (init_state 0)))"
  using zero_value_promise_is_settled
    [of 0 "snd (new_promise (zero_promise :: (int, nat) promise) (init_state 0))" _ _ _ "Iterator [0]" "[]"]
  by (simp add: new_promise_def init_state_def default_int_def Iterator_def)

section \<open>A rejected promise with a nil error\<close>

text \<open>
  Claim C10. \<^verbatim>\<open>NewRejected[T](nil)\<close> yields a promise that is observed as settled
  successfully with the zero value: \<^verbatim>\<open>Resolve\<close> returns \<open>(default, nil)\<close>; \<^verbatim>\<open>Then\<close> takes
  the already-settled path and, when its goroutine runs, the handler is called with the
  zero value and its outcome settles the derived promise; \<^verbatim>\<open>Catch\<close> returns a promise
  that is already settled with \<open>(default, nil)\<close>, starts no goroutine and keeps no
  reference to its handler, which is therefore never called. Only \<^verbatim>\<open>err != nil\<close> tells
  failure from success.
\<close>

theorem NewRejected_nil_is_success:
  fixes s :: "('v::default, 'u) state"
  assumes "NewRejected None s = (p, s1)"
  shows "Resolve p s1 = Ok (Some \<lparr>Result = default, Error = None\<rparr>, s1) \<and>
         Then p f s1 = Ok (NewFn (ThenDoneBody p None default f) s1) \<and>
         (\<exists>s3. sched_step (length (pool s1)) (snd (NewFn (ThenDoneBody p None default (UserFn g)) s1)) = Ok s3 \<and>
            world s3 = snd (g default (world s1)) \<and>
            invoked s3 = invoked s1 @ [CalledThen (Suc p) (UserFn g) default] \<and>
            Resolve (Suc p) s3 =
              Ok (Some \<lparr>Result = fst (fst (g default (world s1))),
                        Error = snd (fst (g default (world s1)))\<rparr>, s3)) \<and>
         Catch p h s1 = Ok (Suc p, s1\<lparr>heap := heap s1 @ [fresh_promise\<lparr>notDone := False\<rparr>]\<rparr>) \<and>
         Resolve (Suc p) (s1\<lparr>heap := heap s1 @ [fresh_promise\<lparr>notDone := False\<rparr>]\<rparr>) =
           Ok (Some \<lparr>Result = default, Error = None\<rparr>,
               s1\<lparr>heap := heap s1 @ [fresh_promise\<lparr>notDone := False\<rparr>]\<rparr>)"
proof -
  have z: "(zero_promise :: ('v, 'u) promise)\<lparr>err := None\<rparr> = zero_promise"
    by (simp add: zero_promise_def)
  from assms have p: "p = length (heap s)" and s1: "s1 = s\<lparr>heap := heap s @ [zero_promise]\<rparr>"
    by (auto simp: NewRejected_def new_promise_def z)
  have v: "p < length (heap s1)" "heap s1 ! p = zero_promise"
    by (simp_all add: p s1)
  have 1: "Resolve p s1 = Ok (Some \<lparr>Result = default, Error = None\<rparr>, s1)"
    using v by (simp add: Resolve_simp)
  have 2: "Then p f s1 = Ok (NewFn (ThenDoneBody p None default f) s1)"
    using v by (simp add: Then_done)
  have 4: "Catch p h s1 = Ok (Suc p, s1\<lparr>heap := heap s1 @ [fresh_promise\<lparr>notDone := False\<rparr>]\<rparr>)"
    using v Catch_done_nil [of p s1 h] by (simp add: p s1)
  have 5: "Resolve (Suc p) (s1\<lparr>heap := heap s1 @ [fresh_promise\<lparr>notDone := False\<rparr>]\<rparr>) =
           Ok (Some \<lparr>Result = default, Error = None\<rparr>,
               s1\<lparr>heap := heap s1 @ [fresh_promise\<lparr>notDone := False\<rparr>]\<rparr>)"
    by (simp add: Resolve_simp p s1 nth_append)
  define s2 where "s2 = snd (NewFn (ThenDoneBody p None default (UserFn g)) s1)"
  have s2: "s2 = s1\<lparr>heap := heap s1 @ [fresh_promise],
                    pool := pool s1 @ [GoCall (Suc p) (ThenDoneBody p None default (UserFn g))]\<rparr>"
    by (simp add: s2_def NewFn_simp p s1)
  have ev: "eval_producer (Suc p) (ThenDoneBody p None default (UserFn g)) s2 =
      Ok (fst (g default (world s1)), (note_invoked (CalledThen (Suc p) (UserFn g) default) s2)\<lparr>world := snd (g default (world s1))\<rparr>)"
    using eval_producer_ThenDoneBody [of p s2 "Suc p" None default "UserFn g"]
    by (simp add: s2 p s1 nth_append note_invoked_def)
  have st: "sched_step (length (pool s1)) s2 =
     Ok ((note_invoked (CalledThen (Suc p) (UserFn g) default) s2)\<lparr>world := snd (g default (world s1)),
          heap := (heap s2)[Suc p := (heap s2 ! Suc p)
            \<lparr>notDone := False, err := snd (fst (g default (world s1))), res := fst (fst (g default (world s1))),
             thenList := None, errorList := None\<rparr>],
          pool := (pool s2)[length (pool s1) :=
             GoPass (Suc p) (fst (fst (g default (world s1)))) (snd (fst (g default (world s1))))
               (thenList (heap s2 ! Suc p)) (errorList (heap s2 ! Suc p))]\<rparr>)"
    using sched_step_GoCall [of "length (pool s1)" s2 "Suc p" "ThenDoneBody p None default (UserFn g)"
        "fst (fst (g default (world s1)))" "snd (fst (g default (world s1)))"
        "(note_invoked (CalledThen (Suc p) (UserFn g) default) s2)\<lparr>world := snd (g default (world s1))\<rparr>"] ev
    by (simp add: s2 p s1 nth_append note_invoked_def)
  have 3: "\<exists>s3. sched_step (length (pool s1)) s2 = Ok s3 \<and>
            world s3 = snd (g default (world s1)) \<and>
            invoked s3 = invoked s1 @ [CalledThen (Suc p) (UserFn g) default] \<and>
            Resolve (Suc p) s3 =
              Ok (Some \<lparr>Result = fst (fst (g default (world s1))),
                        Error = snd (fst (g default (world s1)))\<rparr>, s3)"
    unfolding st by (simp add: Resolve_simp s2 p s1 note_invoked_def nth_append)
  from 1 2 3 4 5 show ?thesis unfolding s2_def by blast
qed

theorem NewRejected_nil_witness:
  "Resolve 0 (snd (NewRejected None (init_state (0::nat)) :: pid \<times> (int, nat) state)) =
     Ok (Some \<lparr>Result = 0, Error = None\<rparr>, snd (NewRejected None (init_state 0)))"
  using NewRejected_nil_is_success
    [of "init_state (0::nat) :: (int, nat) state" 0 "snd (NewRejected None (init_state 0))"]
  by (simp add: NewRejected_def new_promise_def init_state_def default_int_def)


section \<open>The handler pass as a sequence of invocations\<close>

lemma obind_assoc: "obind (obind m f) g = obind m (\<lambda>x. obind (f x) g)"
  by (cases m) auto

lemma obind_Ok_right [simp]: "obind m Ok = m"
  by (cases m) auto

lemma run_append: "run (ws1 @ ws2) s = obind (run ws1 s) (run ws2)"
proof (induction ws1 s rule: run.induct)
  case (1 s)
  show ?case by simp
next
  case (2 w ws s)
  show ?case
  proof (cases "exec_item w s")
    case (Ok x)
    obtain ws' s' where x: "x = (ws', s')" by (cases x)
    from 2 [OF Ok x [symmetric], simplified] Ok x show ?thesis by simp
  qed simp_all
qed

text \<open>Doing \<open>k x\<close> for each \<open>x\<close> of a list, from its front, as long as the outcome is \<open>Ok\<close>.\<close>

fun fold_outcome :: "('a \<Rightarrow> 's \<Rightarrow> 's outcome) \<Rightarrow> 'a list \<Rightarrow> 's \<Rightarrow> 's outcome" where
  "fold_outcome k [] s = Ok s"
| "fold_outcome k (x # xs) s = obind (k x s) (fold_outcome k xs)"

lemma run_map_fold:
  "run (map w hs @ ws) s = obind (fold_outcome (\<lambda>h. run [w h]) hs s) (run ws)"
proof (induction hs arbitrary: s)
  case Nil
  show ?case by simp
next
  case (Cons h hs)
  have "run (map w (h # hs) @ ws) s = run ([w h] @ (map w hs @ ws)) s" by simp
  also have "\<dots> = obind (run [w h] s) (run (map w hs @ ws))" by (rule run_append)
  also have "\<dots> = obind (run [w h] s) (\<lambda>x. obind (fold_outcome (\<lambda>h. run [w h]) hs x) (run ws))"
    by (cases "run [w h] s") (simp_all add: Cons del: run.simps)
  finally show ?case by (simp add: obind_assoc del: run.simps)
qed

lemma run_unlock: "run [WUnlockDone p] s = Ok (UnlockDone p s)"
  by simp

text \<open>
  The handlers a list field holds: none when it is nil. The promises that handlers and
  work items will settle are their targets.
\<close>

definition handlers_in :: "'a list option \<Rightarrow> 'a list" where
  "handlers_in l = (case l of None \<Rightarrow> [] | Some hs \<Rightarrow> hs)"

fun then_target :: "('v, 'u) thenhandler \<Rightarrow> pid list" where
  "then_target (ThenHn q f) = [q]"
| "then_target (RawThenHn g) = []"

fun err_target :: "('v, 'u) errhandler \<Rightarrow> pid list" where
  "err_target (ThenCatchHn q) = [q]"
| "err_target (CatchHn q f) = [q]"
| "err_target (RawErrHn g) = []"

fun work_targets :: "('v, 'u) work \<Rightarrow> pid list" where
  "work_targets (WThen h v) = then_target h"
| "work_targets (WErr h e) = err_target h"
| "work_targets (WUnlockDone p) = []"

fun work_producer :: "('v, 'u) work \<Rightarrow> ('v, 'u) producer" where
  "work_producer (WThen (ThenHn q f) v) = ThenHnBody f v"
| "work_producer (WErr (ThenCatchHn q) e) = ThenCatchHnBody e"
| "work_producer (WErr (CatchHn q f) e) = CatchHnBody f e"
| "work_producer w = ThenCatchHnBody None"

lemma pass_begin_Ok:
  "pass_begin q r e thl erl s1 = Ok (ws, s2) \<longleftrightarrow>
     q < length (heap s1) \<and> \<not> doneMu (heap s1 ! q) \<and>
     s2 = s1\<lparr>heap := (heap s1)[q := (heap s1 ! q)\<lparr>doneMu := True\<rparr>]\<rparr> \<and>
     (\<exists>hw. handlers_work r e thl erl = Some hw \<and> ws = hw @ [WUnlockDone q])"
  by (auto simp: pass_begin_def obind_Ok_iff LockDone_Ok split: option.splits)

lemma call_settle_Ok:
  "call_settle p f s = Ok ((r, e, thl, erl), s') \<longleftrightarrow>
     (\<exists>s1. eval_producer p f s = Ok ((r, e), s1) \<and> p < length (heap s) \<and> \<not> lock (heap s ! p) \<and>
        thl = thenList (heap s ! p) \<and> erl = errorList (heap s ! p) \<and>
        s' = s1\<lparr>heap := (heap s)[p := (heap s ! p)
               \<lparr>notDone := False, err := e, res := r, thenList := None, errorList := None\<rparr>]\<rparr>)"
proof (cases "eval_producer p f s")
  case (Ok x)
  obtain re s1 where x: "x = (re, s1)" by (cases x)
  with Ok eval_producer_heap [of p f s re s1] have h: "heap s1 = heap s" by simp
  show ?thesis
    using call_settle_simp2 [of p s f] Ok x h
    by (cases "p < length (heap s)"; cases "lock (heap s ! p)")
      (auto simp: call_settle_def Lock_def)
qed (simp_all add: call_settle_def)

lemma nested_call_Ok:
  assumes "obind (call_settle q f s) (\<lambda>((r, e, thl, erl), s1). pass_begin q r e thl erl s1) = Ok (ws', s')"
  shows "\<exists>r e s1 hw. eval_producer q f s = Ok ((r, e), s1) \<and>
           q < length (heap s) \<and> \<not> lock (heap s ! q) \<and> \<not> doneMu (heap s ! q) \<and>
           handlers_work r e (thenList (heap s ! q)) (errorList (heap s ! q)) = Some hw \<and>
           ws' = hw @ [WUnlockDone q] \<and>
           s' = s1\<lparr>heap := (heap s)[q := (heap s ! q)
                  \<lparr>notDone := False, err := e, res := r, thenList := None, errorList := None,
                   doneMu := True\<rparr>]\<rparr>"
proof -
  from assms obtain r e thl erl s2 where
    cs: "call_settle q f s = Ok ((r, e, thl, erl), s2)" and pb: "pass_begin q r e thl erl s2 = Ok (ws', s')"
    by (auto simp: obind_Ok_iff)
  from cs obtain s1 where ev: "eval_producer q f s = Ok ((r, e), s1)" and q: "q < length (heap s)"
    and l: "\<not> lock (heap s ! q)" and thl: "thl = thenList (heap s ! q)" and erl: "erl = errorList (heap s ! q)"
    and s2: "s2 = s1\<lparr>heap := (heap s)[q := (heap s ! q)
               \<lparr>notDone := False, err := e, res := r, thenList := None, errorList := None\<rparr>]\<rparr>"
    by (auto simp: call_settle_Ok)
  from pb s2 q thl erl show ?thesis
    using ev l by (auto simp: pass_begin_Ok)
qed

lemma exec_item_handler:
  assumes "exec_item w s = Ok (ws', s')" and "work_targets w = [q]"
  shows "\<exists>r e s1 hw. eval_producer q (work_producer w) s = Ok ((r, e), s1) \<and>
           q < length (heap s) \<and> \<not> lock (heap s ! q) \<and> \<not> doneMu (heap s ! q) \<and>
           handlers_work r e (thenList (heap s ! q)) (errorList (heap s ! q)) = Some hw \<and>
           ws' = hw @ [WUnlockDone q] \<and>
           s' = s1\<lparr>heap := (heap s)[q := (heap s ! q)
                  \<lparr>notDone := False, err := e, res := r, thenList := None, errorList := None,
                   doneMu := True\<rparr>]\<rparr>"
proof (cases w)
  case (WThen h v)
  with assms show ?thesis by (cases h) (auto dest!: nested_call_Ok)
next
  case (WErr h e)
  with assms show ?thesis by (cases h) (auto dest!: nested_call_Ok)
next
  case (WUnlockDone p)
  with assms show ?thesis by simp
qed

lemma exec_item_no_target:
  assumes "exec_item w s = Ok (ws', s')" and "work_targets w = []"
  shows "ws' = [] \<and> (case w of WUnlockDone p \<Rightarrow> s' = UnlockDone p s
                       | WThen h v \<Rightarrow> (\<exists>g. h = RawThenHn g \<and> s' = s\<lparr>world := g v (world s)\<rparr>)
                       | WErr h e \<Rightarrow> (\<exists>g. h = RawErrHn g \<and> s' = s\<lparr>world := g e (world s)\<rparr>))"
proof (cases w)
  case (WThen h v)
  with assms show ?thesis by (cases h) auto
next
  case (WErr h e)
  with assms show ?thesis by (cases h) auto
next
  case (WUnlockDone p)
  with assms show ?thesis by auto
qed

lemma work_targets_cases: "work_targets w = [] \<or> (\<exists>q. work_targets w = [q])"
proof (cases w)
  case (WThen h v)
  then show ?thesis by (cases h) auto
next
  case (WErr h e)
  then show ?thesis by (cases h) auto
qed simp

lemma handlers_work_unlock: "handlers_work r e thl erl = Some hw \<Longrightarrow> WUnlockDone p \<notin> set hw"
  by (auto simp: handlers_work_def split: if_splits)

lemma exec_item_keeps_doneMu:
  assumes "exec_item w s = Ok (ws', s')" and "doneMu (heap s ! p)" and "p < length (heap s)"
    and "w \<noteq> WUnlockDone p"
  shows "doneMu (heap s' ! p) \<and> WUnlockDone p \<notin> set ws' \<and> length (heap s') = length (heap s)"
proof -
  consider "work_targets w = []" | q where "work_targets w = [q]"
    using work_targets_cases [of w] by blast
  then show ?thesis
  proof cases
    case 1
    from exec_item_no_target [OF assms(1) 1] assms(2-4) show ?thesis
      by (cases w) (auto simp: UnlockDone_def nth_list_update)
  next
    case 2
    from exec_item_handler [OF assms(1) 2] assms(2,3) show ?thesis
      by (auto simp: nth_list_update dest: eval_producer_heap handlers_work_unlock)
  qed
qed

lemma run_keeps_doneMu:
  "run ws s = Ok s' \<Longrightarrow> doneMu (heap s ! p) \<Longrightarrow> p < length (heap s) \<Longrightarrow>
   WUnlockDone p \<notin> set ws \<Longrightarrow> doneMu (heap s' ! p)"
proof (induction ws s rule: run.induct)
  case (1 s)
  then show ?case by simp
next
  case (2 w ws s)
  from "2.prems"(1) obtain ws1 s1 where ex: "exec_item w s = Ok (ws1, s1)" and r: "run (ws1 @ ws) s1 = Ok s'"
    by (auto split: outcome.splits)
  from "2.prems" have "w \<noteq> WUnlockDone p" by auto
  from exec_item_keeps_doneMu [OF ex "2.prems"(2,3) this] "2.prems"(3,4)
  have "doneMu (heap s1 ! p)" "p < length (heap s1)" "WUnlockDone p \<notin> set (ws1 @ ws)" by auto
  with "2.IH" [OF ex refl r] show ?case by blast
qed

lemma run_unlock_fun: "run [WUnlockDone p] = (\<lambda>s. Ok (UnlockDone p s))"
  by (rule ext) simp

section \<open>What call does\<close>

text \<open>
  Claim C2. Let the producing function return \<open>(r, e)\<close>, and let the promise hold the
  handler lists \<open>thl\<close> and \<open>erl\<close>. \<^verbatim>\<open>call\<close> needs the state lock: while somebody holds it,
  nothing is settled. With the lock, the first region marks the promise settled, stores
  \<open>r\<close> and \<open>e\<close> (\<^verbatim>\<open>Resolve\<close> returns them from then on) and detaches both lists: the
  promise's fields hold no handler any more (they are nil in \<^verbatim>\<open>promise.go\<close>, empty stacks
  in the revision under \<^verbatim>\<open>src/unnamed\<close>). The pass needs \<^verbatim>\<open>doneMu\<close>: while somebody holds
  it, no handler is invoked. With it, \<^verbatim>\<open>call\<close> locks \<^verbatim>\<open>doneMu\<close>, invokes the detached
  failure handlers when \<open>e\<close> is not nil, each with \<open>e\<close>, and the detached success handlers
  when \<open>e\<close> is nil, each with \<open>r\<close>, one after the other from the front of the list, which
  is the order of registration since \<^verbatim>\<open>Then\<close> and \<^verbatim>\<open>Catch\<close> push at the back; the other
  list is not looked at; then it unlocks \<^verbatim>\<open>doneMu\<close>. No invocation of a handler releases
  the promise's \<^verbatim>\<open>doneMu\<close> in between.
\<close>

theorem call_settles_and_runs_handlers:
  fixes s :: "('v::default, 'u) state"
  assumes "p < length (heap s)" and "eval_producer p f s = Ok ((r, e), s1)"
    and "thenList (heap s ! p) = Some thl" and "errorList (heap s ! p) = Some erl"
  defines "settled \<equiv> s1\<lparr>heap := (heap s)[p := (heap s ! p)
             \<lparr>notDone := False, err := e, res := r, thenList := None, errorList := None\<rparr>]\<rparr>"
  shows "(lock (heap s ! p) \<longrightarrow> call p f s = Blocked) \<and>
         (\<not> lock (heap s ! p) \<longrightarrow>
            call_settle p f s = Ok ((r, e, Some thl, Some erl), settled) \<and>
            Resolve p settled = Ok (Some \<lparr>Result = r, Error = e\<rparr>, settled) \<and>
            handlers_in (thenList (heap settled ! p)) = [] \<and>
            handlers_in (errorList (heap settled ! p)) = [] \<and>
            (doneMu (heap s ! p) \<longrightarrow> call p f s = Blocked) \<and>
            (\<not> doneMu (heap s ! p) \<longrightarrow>
               call p f s =
                 obind (LockDone p settled) (\<lambda>s2.
                 obind (if e \<noteq> None then fold_outcome (\<lambda>h. run [WErr h e]) erl s2
                        else fold_outcome (\<lambda>h. run [WThen h r]) thl s2) (\<lambda>s3.
                   Ok (UnlockDone p s3)))) \<and>
            (\<forall>w t t'. doneMu (heap t ! p) \<and> p < length (heap t) \<and> w \<noteq> WUnlockDone p \<and>
               run [w] t = Ok t' \<longrightarrow> doneMu (heap t' ! p)))"
proof -
  from eval_producer_heap [OF assms(2)] have h1: "heap s1 = heap s" .
  have A: "lock (heap s ! p) \<Longrightarrow> call p f s = Blocked"
    using assms(1,2) h1 by (simp add: call_def call_settle_def Lock_def)
  have B: "\<not> lock (heap s ! p) \<Longrightarrow> call_settle p f s = Ok ((r, e, Some thl, Some erl), settled)"
    using assms(1-4) by (simp add: call_settle_Ok settled_def)
  have C: "\<not> lock (heap s ! p) \<Longrightarrow> Resolve p settled = Ok (Some \<lparr>Result = r, Error = e\<rparr>, settled)"
    using assms(1) by (simp add: Resolve_simp settled_def)
  have D: "handlers_in (thenList (heap settled ! p)) = []" "handlers_in (errorList (heap settled ! p)) = []"
    using assms(1) by (simp_all add: settled_def handlers_in_def)
  have dm: "doneMu (heap settled ! p) = doneMu (heap s ! p)" "p < length (heap settled)"
    using assms(1) by (simp_all add: settled_def)
  have E: "\<not> lock (heap s ! p) \<Longrightarrow> doneMu (heap s ! p) \<Longrightarrow> call p f s = Blocked"
    using B dm by (simp add: call_def call_pass_def pass_begin_def LockDone_def)
  have F: "call p f s =
                 obind (LockDone p settled) (\<lambda>s2.
                 obind (if e \<noteq> None then fold_outcome (\<lambda>h. run [WErr h e]) erl s2
                        else fold_outcome (\<lambda>h. run [WThen h r]) thl s2) (\<lambda>s3.
                   Ok (UnlockDone p s3)))"
    if "\<not> lock (heap s ! p)" "\<not> doneMu (heap s ! p)"
  proof (cases "e = None")
    case True
    then show ?thesis
      using B [OF that(1)] dm that(2)
        run_map_fold [of "\<lambda>h. WThen h r" thl "[WUnlockDone p]"]
      by (simp add: call_def call_pass_def pass_begin_def LockDone_def handlers_work_def
          run_unlock_fun del: run.simps)
  next
    case False
    then show ?thesis
      using B [OF that(1)] dm that(2)
        run_map_fold [of "\<lambda>h. WErr h e" erl "[WUnlockDone p]"]
      by (simp add: call_def call_pass_def pass_begin_def LockDone_def handlers_work_def
          run_unlock_fun del: run.simps)
  qed
  have G: "\<forall>w t t'. doneMu (heap t ! p) \<and> p < length (heap t) \<and> w \<noteq> WUnlockDone p \<and>
               run [w] t = Ok t' \<longrightarrow> doneMu (heap t' ! p)"
    using run_keeps_doneMu [of "[_]" _ _ p] by auto
  from A B C D E F G show ?thesis by blast
qed

definition call_witness_state :: "(int, nat) state" where
  "call_witness_state =
     (init_state 0)\<lparr>heap :=
        [fresh_promise\<lparr>thenList := Some [RawThenHn (\<lambda>v w. w + 1)],
                        errorList := Some [RawErrHn (\<lambda>e w. w + 10), RawErrHn (\<lambda>e w. 2 * w)]\<rparr>]\<rparr>"

theorem call_settles_and_runs_handlers_witness:
  "obind (call 0 (UserProducer (\<lambda>w. ((7, Some (ErrorString ''x'')), w))) call_witness_state)
     (\<lambda>t. Ok (world t, Resolve 0 t = Ok (Some \<lparr>Result = 7, Error = Some (ErrorString ''x'')\<rparr>, t))) =
   Ok (20, True)"
  using call_settles_and_runs_handlers
    [of 0 call_witness_state "UserProducer (\<lambda>w. ((7, Some (ErrorString ''x'')), w))"
        7 "Some (ErrorString ''x'')" call_witness_state
        "[RawThenHn (\<lambda>v w. w + 1)]" "[RawErrHn (\<lambda>e w. w + 10), RawErrHn (\<lambda>e w. 2 * w)]"]
  apply (simp add: call_witness_state_def init_state_def LockDone_def UnlockDone_def)
  apply (elim conjE)
  apply (simp add: Resolve_simp)
  done

section \<open>NewFnWithArg\<close>

text \<open>
  The spec's words for \<^verbatim>\<open>NewFnWithArg\<close>: a wrapper binding one argument into a
  zero-argument producer (\<open>bind_argument\<close>) before delegating to the from-producer
  constructor (\<open>FromProducerWithArg\<close>).
\<close>

definition bind_argument :: "'a \<Rightarrow> ('a \<Rightarrow> 'u \<Rightarrow> ('v \<times> goerror) \<times> 'u) \<Rightarrow> ('v, 'u) producer" where
  "bind_argument arg f = UserProducer (f arg)"

definition FromProducerWithArg ::
  "'a \<Rightarrow> ('a \<Rightarrow> 'u \<Rightarrow> ('v \<times> goerror) \<times> 'u) \<Rightarrow> ('v::default, 'u) state \<Rightarrow> pid \<times> ('v, 'u) state" where
  "FromProducerWithArg arg f s = NewFn (bind_argument arg f) s"

text \<open>
  Claim C9. \<^verbatim>\<open>NewFnWithArg(arg, f)\<close> is the from-producer constructor applied to the
  producer with the argument bound in: both return the same promise in the same state, with
  the same goroutine, so that they behave alike under every schedule; and when that
  goroutine runs, the promise settles with the outcome of \<open>f arg\<close>.
\<close>

theorem NewFnWithArg_delegates:
  fixes s :: "('v::default, 'u) state"
  shows "NewFnWithArg arg f s = FromProducerWithArg arg f s \<and>
         NewFnWithArg arg f s = NewFn (UserProducer (\<lambda>w. f arg w)) s \<and>
         (\<exists>s3. sched_step (length (pool s)) (snd (NewFnWithArg arg f s)) = Ok s3 \<and>
                sched_step (length (pool s)) (snd (NewFn (UserProducer (\<lambda>w. f arg w)) s)) = Ok s3 \<and>
                Resolve (fst (NewFnWithArg arg f s)) s3 =
                  Ok (Some \<lparr>Result = fst (fst (f arg (world s))), Error = snd (fst (f arg (world s)))\<rparr>, s3) \<and>
                world s3 = snd (f arg (world s)))"
proof -
  define s1 where "s1 = snd (NewFnWithArg arg f s)"
  have s1: "s1 = s\<lparr>heap := heap s @ [fresh_promise],
                    pool := pool s @ [GoCall (length (heap s)) (UserProducer (f arg))]\<rparr>"
    by (simp add: s1_def NewFnWithArg_def NewFn_simp)
  have st: "sched_step (length (pool s)) s1 =
     Ok (s1\<lparr>world := snd (f arg (world s)),
          heap := (heap s1)[length (heap s) := (heap s1 ! length (heap s))
            \<lparr>notDone := False, err := snd (fst (f arg (world s))), res := fst (fst (f arg (world s))),
             thenList := None, errorList := None\<rparr>],
          pool := (pool s1)[length (pool s) :=
             GoPass (length (heap s)) (fst (fst (f arg (world s)))) (snd (fst (f arg (world s))))
               (thenList (heap s1 ! length (heap s))) (errorList (heap s1 ! length (heap s)))]\<rparr>)"
    using sched_step_GoCall [of "length (pool s)" s1 "length (heap s)" "UserProducer (f arg)"
        "fst (fst (f arg (world s)))" "snd (fst (f arg (world s)))"
        "s1\<lparr>world := snd (f arg (world s))\<rparr>"]
    by (simp add: s1)
  have eq: "NewFnWithArg arg f s = NewFn (UserProducer (\<lambda>w. f arg w)) s"
    by (simp add: NewFnWithArg_def)
  have p: "fst (NewFnWithArg arg f s) = length (heap s)"
    by (simp add: NewFnWithArg_def NewFn_simp)
  have "\<exists>s3. sched_step (length (pool s)) s1 = Ok s3 \<and>
                Resolve (length (heap s)) s3 =
                  Ok (Some \<lparr>Result = fst (fst (f arg (world s))), Error = snd (fst (f arg (world s)))\<rparr>, s3) \<and>
                world s3 = snd (f arg (world s))"
    unfolding st by (simp add: Resolve_simp s1)
  then have "\<exists>s3. sched_step (length (pool s)) (snd (NewFnWithArg arg f s)) = Ok s3 \<and>
                sched_step (length (pool s)) (snd (NewFn (UserProducer (\<lambda>w. f arg w)) s)) = Ok s3 \<and>
                Resolve (fst (NewFnWithArg arg f s)) s3 =
                  Ok (Some \<lparr>Result = fst (fst (f arg (world s))), Error = snd (fst (f arg (world s)))\<rparr>, s3) \<and>
                world s3 = snd (f arg (world s))"
    unfolding s1_def p eq [symmetric] by blast
  moreover have "NewFnWithArg arg f s = FromProducerWithArg arg f s"
    by (simp add: FromProducerWithArg_def bind_argument_def NewFnWithArg_def)
  ultimately show ?thesis using eq by blast
qed

section \<open>Catch on a promise that is still pending\<close>

text \<open>
  Claim C1, at the input where the code departs from it. A promise is made by \<^verbatim>\<open>NewFn\<close>
  from a function returning \<open>(5, nil)\<close>, and \<^verbatim>\<open>Catch\<close> is called before its goroutine has
  run. The goroutine then runs to its end: no goroutine is left, the promise is settled
  with \<open>(5, nil)\<close>, the handler has not been called, and the promise that \<^verbatim>\<open>Catch\<close>
  returned is still pending. Nothing is left that could settle it.
\<close>

theorem Catch_on_pending_success_stays_pending:
  fixes g :: "goerror \<Rightarrow> nat \<Rightarrow> (int \<times> goerror) \<times> nat"
  defines "s1 \<equiv> snd (NewFn (UserProducer (\<lambda>w. ((5, None), w))) (init_state 0))"
  shows "\<exists>s2 s3. Catch 0 (UserErrFn g) s1 = Ok (1, s2) \<and>
           run_sched [0, 0] s2 = Ok s3 \<and> quiescent s3 \<and>
           Resolve 0 s3 = Ok (Some \<lparr>Result = 5, Error = None\<rparr>, s3) \<and>
           Resolve 1 s3 = Ok (None, s3) \<and>
           invoked s3 = []"
  unfolding s1_def
  apply (simp add: NewFn_simp init_state_def Catch_pending)
  apply (simp add: sched_step_def call_settle_simp2 call_pass_def pass_begin_def LockDone_def
      handlers_work_def UnlockDone_def quiescent_def Resolve_simp)
  done


section \<open>The invariant of the reachable states\<close>

text \<open>
  The promises that something is still going to settle are the targets: of the work left
  in a handler pass, of the goroutines, and of the handlers in the promises' lists. In
  every reachable state no promise is a target twice, every target is a promise that is
  still pending, and a promise's success handlers settle promises that its failure
  handlers settle as well (the two closures of one \<^verbatim>\<open>Then\<close>). A pending promise has both
  lists; nobody holds a state lock between two steps; \<^verbatim>\<open>doneMu\<close> is held exactly for the
  promises whose pass is running.
\<close>

fun go_targets :: "('v, 'u) goroutine \<Rightarrow> pid list" where
  "go_targets (GoCall p f) = [p]"
| "go_targets (GoPass p r e thl erl) =
     (if e \<noteq> None then concat (map err_target (handlers_in erl))
      else concat (map then_target (handlers_in thl)))"
| "go_targets g = []"

definition promise_targets :: "('v, 'u) promise \<Rightarrow> pid list" where
  "promise_targets pr = concat (map err_target (handlers_in (errorList pr)))"

definition then_targets :: "('v, 'u) promise \<Rightarrow> pid list" where
  "then_targets pr = concat (map then_target (handlers_in (thenList pr)))"

definition targets ::
  "('v, 'u) work list \<Rightarrow> ('v, 'u) goroutine list \<Rightarrow> ('v, 'u) promise list \<Rightarrow> pid list" where
  "targets ws P h =
     concat (map work_targets ws) @ concat (map go_targets P) @ concat (map promise_targets h)"

fun unlocks :: "('v, 'u) work list \<Rightarrow> pid list" where
  "unlocks [] = []"
| "unlocks (WUnlockDone p # ws) = p # unlocks ws"
| "unlocks (w # ws) = unlocks ws"

definition targets_ok ::
  "('v, 'u) work list \<Rightarrow> ('v, 'u) goroutine list \<Rightarrow> ('v, 'u) promise list \<Rightarrow> bool" where
  "targets_ok ws P h \<longleftrightarrow>
     distinct (targets ws P h) \<and>
     (\<forall>q \<in> set (targets ws P h). q < length h \<and> notDone (h ! q))"

definition promise_ok :: "('v, 'u) promise \<Rightarrow> bool" where
  "promise_ok pr \<longleftrightarrow>
     distinct (then_targets pr) \<and> set (then_targets pr) \<subseteq> set (promise_targets pr) \<and>
     \<not> lock pr \<and> (notDone pr \<longrightarrow> thenList pr \<noteq> None \<and> errorList pr \<noteq> None)"

definition locks_ok :: "('v, 'u) work list \<Rightarrow> ('v, 'u) promise list \<Rightarrow> bool" where
  "locks_ok ws h \<longleftrightarrow>
     distinct (unlocks ws) \<and>
     (\<forall>i < length h. doneMu (h ! i) \<longleftrightarrow> i \<in> set (unlocks ws)) \<and>
     (\<forall>i \<in> set (unlocks ws). i < length h \<and> \<not> notDone (h ! i))"

fun producer_ok :: "('v, 'u) promise list \<Rightarrow> ('v, 'u) producer \<Rightarrow> bool" where
  "producer_ok h (ThenDoneBody p e v f) = (p < length h)"
| "producer_ok h (CatchDoneBody p e f) = (p < length h)"
| "producer_ok h f = True"

fun goroutine_ok :: "('v, 'u) promise list \<Rightarrow> ('v, 'u) goroutine \<Rightarrow> bool" where
  "goroutine_ok h (GoCall q f) = producer_ok h f"
| "goroutine_ok h (GoPass p r e thl erl) =
     (p < length h \<and> \<not> notDone (h ! p) \<and> (if e \<noteq> None then erl \<noteq> None else thl \<noteq> None))"
| "goroutine_ok h (AllWorkerThen a i x) = (x < length h)"
| "goroutine_ok h (AllWorkerCatch a x c) = (x < length h)"
| "goroutine_ok h g = True"

definition inv ::
  "('v, 'u) work list \<Rightarrow> ('v, 'u) goroutine list \<Rightarrow> ('v, 'u) promise list \<Rightarrow> bool" where
  "inv ws P h \<longleftrightarrow>
     targets_ok ws P h \<and> list_all promise_ok h \<and> locks_ok ws h \<and> list_all (goroutine_ok h) P"

definition Inv :: "('v, 'u) state \<Rightarrow> bool" where
  "Inv s = inv [] (pool s) (heap s)"

lemma distinct_count_le_1: "distinct xs \<longleftrightarrow> (\<forall>a. count (mset xs) a \<le> 1)"
  by (induction xs) (auto simp: count_eq_zero_iff le_Suc_eq)

lemma distinct_mset_mono: "mset xs \<subseteq># mset ys \<Longrightarrow> distinct ys \<Longrightarrow> distinct xs"
  unfolding distinct_count_le_1 by (meson le_trans mset_subset_eq_count)

lemma mset_concat_map_update:
  "i < length xs \<Longrightarrow>
   mset (concat (map f (xs[i := y]))) + mset (f (xs ! i)) = mset (concat (map f xs)) + mset (f y)"
  by (induction xs arbitrary: i) (auto split: nat.splits)

lemma distinct_subset_mset: "distinct xs \<Longrightarrow> set xs \<subseteq> set ys \<Longrightarrow> mset xs \<subseteq># mset ys"
  by (metis distinct_count_atmost_1 set_mset_mset mset_subset_eqI count_eq_zero_iff
      count_greater_eq_one_iff in_mono le_zero_eq nle_le)

lemma targets_ok_settle:
  assumes ok: "targets_ok ws0 P0 h"
    and old: "mset (targets ws0 P0 h) = add_mset q M"
    and new: "mset (targets ws1 P1 (h[q := X])) \<subseteq># M"
  shows "targets_ok ws1 P1 (h[q := X])"
proof -
  from ok have d: "distinct (targets ws0 P0 h)"
    and v: "\<And>t. t \<in> set (targets ws0 P0 h) \<Longrightarrow> t < length h \<and> notDone (h ! t)"
    by (auto simp: targets_ok_def)
  have "M \<subseteq># add_mset q M" by simp
  with new old have sub: "mset (targets ws1 P1 (h[q := X])) \<subseteq># mset (targets ws0 P0 h)"
    by (metis subset_mset.order_trans)
  have d1: "distinct (targets ws1 P1 (h[q := X]))"
    using distinct_mset_mono [OF sub d] .
  from d have "count (mset (targets ws0 P0 h)) q \<le> 1"
    unfolding distinct_count_le_1 by blast
  with old have qM: "q \<notin># M"
    by (simp add: not_in_iff)
  have "t < length (h[q := X]) \<and> notDone (h[q := X] ! t)" if "t \<in> set (targets ws1 P1 (h[q := X]))" for t
  proof -
    from that new have tM: "t \<in># M"
      by (meson mset_subset_eqD in_multiset_in_set)
    with old have "t \<in># mset (targets ws0 P0 h)" by simp
    then have "t \<in> set (targets ws0 P0 h)" by simp
    moreover from tM qM have "t \<noteq> q" by auto
    ultimately show ?thesis using v [of t] by simp
  qed
  with d1 show ?thesis by (auto simp: targets_ok_def)
qed

lemma map_update_same: "f y = f (xs ! i) \<Longrightarrow> map f (xs[i := y]) = map f xs"
  by (induction xs arbitrary: i) (auto split: nat.splits)

lemma list_all_update: "list_all P xs \<Longrightarrow> P y \<Longrightarrow> list_all P (xs[i := y])"
  by (induction xs arbitrary: i) (auto split: nat.splits)

lemma unlocks_append: "unlocks (a @ b) = unlocks a @ unlocks b"
  by (induction a rule: unlocks.induct) auto

lemma handlers_work_targets:
  "handlers_work r e thl erl = Some hw \<Longrightarrow>
     concat (map work_targets hw) =
       (if e \<noteq> None then concat (map err_target (handlers_in erl))
        else concat (map then_target (handlers_in thl)))"
  by (auto simp: handlers_work_def handlers_in_def o_def split: if_splits)

lemma unlocks_map_WErr [simp]: "unlocks (map (\<lambda>h. WErr h e) hs) = []"
  by (induction hs) auto

lemma unlocks_map_WThen [simp]: "unlocks (map (\<lambda>h. WThen h r) hs) = []"
  by (induction hs) auto

lemma handlers_work_unlocks: "handlers_work r e thl erl = Some hw \<Longrightarrow> unlocks hw = []"
  by (auto simp: handlers_work_def split: if_splits)

lemma producer_ok_mono: "producer_ok h f \<Longrightarrow> length h \<le> length h' \<Longrightarrow> producer_ok h' f"
  by (cases f) auto

lemma goroutine_ok_mono:
  assumes "goroutine_ok h g" "length h \<le> length h'"
    and "\<And>i. i < length h \<Longrightarrow> \<not> notDone (h ! i) \<Longrightarrow> \<not> notDone (h' ! i)"
  shows "goroutine_ok h' g"
  using assms by (cases g) (auto intro: producer_ok_mono)

lemma pool_ok_mono:
  assumes "list_all (goroutine_ok h) P" "length h \<le> length h'"
    and "\<And>i. i < length h \<Longrightarrow> \<not> notDone (h ! i) \<Longrightarrow> \<not> notDone (h' ! i)"
  shows "list_all (goroutine_ok h') P"
  using assms by (auto simp: list_all_iff intro: goroutine_ok_mono)

lemma set_unlocks: "p \<in> set (unlocks ws) \<longleftrightarrow> WUnlockDone p \<in> set ws"
  by (induction ws rule: unlocks.induct) auto

text \<open>Settling a target \<open>q\<close>: the chosen handlers of \<open>q\<close> replace \<open>q\<close> among the targets.\<close>

lemma inv_settle_in_pass:
  assumes i: "inv (w # ws) P h" and t: "work_targets w = [q]"
    and hw: "handlers_work r e (thenList (h ! q)) (errorList (h ! q)) = Some hw"
    and dm: "\<not> doneMu (h ! q)"
  defines "X \<equiv> (h ! q)\<lparr>notDone := False, err := e, res := r, thenList := None, errorList := None,
                   doneMu := True\<rparr>"
  shows "inv ((hw @ [WUnlockDone q]) @ ws) P (h[q := X])"
proof -
  from i have tok: "targets_ok (w # ws) P h" and pok: "list_all promise_ok h"
    and lok: "locks_ok (w # ws) h" and gok: "list_all (goroutine_ok h) P"
    by (auto simp: inv_def)
  from tok t have q: "q < length h" "notDone (h ! q)"
    by (auto simp: targets_ok_def targets_def)
  from pok q have pq: "promise_ok (h ! q)" by (simp add: list_all_length)
  have X0: "promise_targets X = []" "then_targets X = []"
    by (simp_all add: X_def promise_targets_def then_targets_def handlers_in_def)
  let ?C = "concat (map work_targets hw)"
  have C: "mset ?C \<subseteq># mset (promise_targets (h ! q))"
  proof (cases "e = None")
    case True
    with handlers_work_targets [OF hw] have "?C = then_targets (h ! q)"
      by (simp add: then_targets_def)
    with pq show ?thesis by (auto simp: promise_ok_def intro: distinct_subset_mset)
  next
    case False
    with handlers_work_targets [OF hw] have "?C = promise_targets (h ! q)"
      by (simp add: promise_targets_def)
    then show ?thesis by simp
  qed
  define H where "H = mset (concat (map promise_targets h))"
  define H' where "H' = mset (concat (map promise_targets (h[q := X])))"
  have HH: "H' + mset (promise_targets (h ! q)) = H"
    using mset_concat_map_update [OF q(1), of promise_targets X] X0 by (simp add: H_def H'_def)
  define R where "R = mset (concat (map work_targets ws)) + mset (concat (map go_targets P))"
  have old: "mset (targets (w # ws) P h) = add_mset q (R + H)"
    using t by (simp add: targets_def R_def H_def)
  have new: "mset (targets ((hw @ [WUnlockDone q]) @ ws) P (h[q := X])) = mset ?C + R + H'"
    by (simp add: targets_def R_def H'_def)
  have "mset ?C + R + H' \<subseteq># R + H"
    using C HH by (metis add.commute add.left_commute mset_subset_eq_mono_add_left_cancel
        subset_mset.add_left_mono)
  with new have "mset (targets ((hw @ [WUnlockDone q]) @ ws) P (h[q := X])) \<subseteq># R + H" by simp
  from targets_ok_settle [OF tok old this]
  have 1: "targets_ok ((hw @ [WUnlockDone q]) @ ws) P (h[q := X])" .
  have "promise_ok X"
    using pq by (simp add: promise_ok_def X_def then_targets_def promise_targets_def handlers_in_def)
  with pok have 2: "list_all promise_ok (h[q := X])" by (rule list_all_update)
  have 3: "locks_ok ((hw @ [WUnlockDone q]) @ ws) (h[q := X])"
  proof -
    have u: "unlocks ((hw @ [WUnlockDone q]) @ ws) = q # unlocks ws"
      by (simp add: unlocks_append handlers_work_unlocks [OF hw])
    have uw: "unlocks (w # ws) = unlocks ws"
      using t by (cases w) auto
    from lok dm q have "q \<notin> set (unlocks ws)" by (auto simp: locks_ok_def uw)
    with lok q show ?thesis
      unfolding locks_ok_def u uw by (auto simp: nth_list_update X_def)
  qed
  have 4: "list_all (goroutine_ok (h[q := X])) P"
    using gok by (rule pool_ok_mono) (use q in \<open>auto simp: nth_list_update X_def\<close>)
  from 1 2 3 4 show ?thesis by (simp add: inv_def)
qed

lemma nth_update_if: "(xs[i := x]) ! j = (if i = j \<and> i < length xs then x else xs ! j)"
  by (cases "i < length xs") (auto simp: nth_list_update list_update_beyond)

text \<open>
  \<open>evolves h h'\<close>: the heap has grown from \<open>h\<close> to \<open>h'\<close>, and every promise that was settled
  in \<open>h\<close> is settled in \<open>h'\<close> with the same result and error.
\<close>

definition evolves :: "('v, 'u) promise list \<Rightarrow> ('v, 'u) promise list \<Rightarrow> bool" where
  "evolves h h' \<longleftrightarrow>
     length h \<le> length h' \<and>
     (\<forall>p < length h. \<not> notDone (h ! p) \<longrightarrow>
        \<not> notDone (h' ! p) \<and> res (h' ! p) = res (h ! p) \<and> err (h' ! p) = err (h ! p))"

lemma evolves_refl [simp]: "evolves h h"
  by (simp add: evolves_def)

lemma evolves_trans: "evolves h1 h2 \<Longrightarrow> evolves h2 h3 \<Longrightarrow> evolves h1 h3"
  by (fastforce simp: evolves_def)

lemma evolves_update_pending:
  "notDone (h ! q) \<Longrightarrow> evolves h (h[q := X])"
  by (auto simp: evolves_def nth_update_if)

lemma evolves_update_same:
  "notDone X = notDone (h ! q) \<Longrightarrow> res X = res (h ! q) \<Longrightarrow> err X = err (h ! q) \<Longrightarrow> evolves h (h[q := X])"
  by (auto simp: evolves_def nth_update_if)

lemma inv_unlock:
  assumes "inv (WUnlockDone p # ws) P h"
  shows "inv ws P (h[p := (h ! p)\<lparr>doneMu := False\<rparr>])"
proof -
  let ?h = "h[p := (h ! p)\<lparr>doneMu := False\<rparr>]"
  from assms have tok: "targets_ok (WUnlockDone p # ws) P h" and pok: "list_all promise_ok h"
    and lok: "locks_ok (WUnlockDone p # ws) h" and gok: "list_all (goroutine_ok h) P"
    by (auto simp: inv_def)
  have m: "map promise_targets ?h = map promise_targets h"
    by (rule map_update_same) (simp add: promise_targets_def)
  have nd: "notDone (?h ! t) = notDone (h ! t)" for t
    by (simp add: nth_update_if)
  from tok have 1: "targets_ok ws P ?h"
    by (simp add: targets_ok_def targets_def m nd)
  from lok have p: "p < length h" by (simp add: locks_ok_def)
  with pok have "promise_ok (h ! p)" by (simp add: list_all_length)
  then have "promise_ok ((h ! p)\<lparr>doneMu := False\<rparr>)"
    by (simp add: promise_ok_def then_targets_def promise_targets_def)
  with pok have 2: "list_all promise_ok ?h" by (rule list_all_update)
  from lok have 3: "locks_ok ws ?h"
    by (auto simp: locks_ok_def nth_list_update)
  have 4: "list_all (goroutine_ok ?h) P"
    using gok by (rule pool_ok_mono) (simp_all add: nd)
  from 1 2 3 4 show ?thesis by (simp add: inv_def)
qed

lemma inv_skip:
  assumes "inv (w # ws) P h" "work_targets w = []" "\<And>p. w \<noteq> WUnlockDone p"
  shows "inv ws P h"
proof -
  from assms(3) have "unlocks (w # ws) = unlocks ws" by (cases w) auto
  with assms(1,2) show ?thesis by (simp add: inv_def targets_ok_def targets_def locks_ok_def)
qed

lemma inv_exec_item:
  assumes i: "inv (w # ws) P (heap s)" and ex: "exec_item w s = Ok (ws', s')"
  shows "inv (ws' @ ws) P (heap s') \<and> evolves (heap s) (heap s') \<and> length (heap s') = length (heap s)"
proof -
  consider "work_targets w = []" | q where "work_targets w = [q]"
    using work_targets_cases [of w] by blast
  then show ?thesis
  proof cases
    case 1
    show ?thesis
    proof (cases w)
      case (WUnlockDone p)
      with exec_item_no_target [OF ex 1] i inv_unlock [of p ws P "heap s"] show ?thesis
        by (auto simp: UnlockDone_def intro!: evolves_update_same)
    next
      case (WThen h v)
      with exec_item_no_target [OF ex 1] inv_skip [OF i 1] show ?thesis by auto
    next
      case (WErr h e)
      with exec_item_no_target [OF ex 1] inv_skip [OF i 1] show ?thesis by auto
    qed
  next
    case 2
    from exec_item_handler [OF ex 2] obtain r e s1 hw where
      ev: "eval_producer q (work_producer w) s = Ok ((r, e), s1)" and q: "q < length (heap s)"
      and dm: "\<not> doneMu (heap s ! q)"
      and hw: "handlers_work r e (thenList (heap s ! q)) (errorList (heap s ! q)) = Some hw"
      and ws': "ws' = hw @ [WUnlockDone q]"
      and s': "s' = s1\<lparr>heap := (heap s)[q := (heap s ! q)
                  \<lparr>notDone := False, err := e, res := r, thenList := None, errorList := None,
                   doneMu := True\<rparr>]\<rparr>"
      by blast
    from i 2 have nd: "notDone (heap s ! q)" by (auto simp: inv_def targets_ok_def targets_def)
    from inv_settle_in_pass [OF i 2 hw dm] ws' s' nd show ?thesis
      by (auto intro: evolves_update_pending)
  qed
qed

lemma nested_call_total:
  assumes "q < length (heap s)" "\<not> lock (heap s ! q)" "\<not> doneMu (heap s ! q)"
    and "thenList (heap s ! q) \<noteq> None" "errorList (heap s ! q) \<noteq> None"
    and "eval_producer q f s = Ok x"
  shows "\<exists>ws' s'. obind (call_settle q f s) (\<lambda>((r, e, thl, erl), s1). pass_begin q r e thl erl s1) = Ok (ws', s')"
  using assms
  by (cases x) (auto simp: call_settle_simp2 pass_begin_def LockDone_def handlers_work_def)

lemma inv_target_facts:
  assumes "inv (w # ws) P h" "work_targets w = [q]"
  shows "q < length h \<and> notDone (h ! q) \<and> \<not> lock (h ! q) \<and> \<not> doneMu (h ! q) \<and>
         thenList (h ! q) \<noteq> None \<and> errorList (h ! q) \<noteq> None"
proof -
  from assms have q: "q < length h" "notDone (h ! q)"
    by (auto simp: inv_def targets_ok_def targets_def)
  from assms(1) q have "promise_ok (h ! q)" by (simp add: inv_def list_all_length)
  moreover from assms(1) q have "\<not> doneMu (h ! q)" by (auto simp: inv_def locks_ok_def)
  ultimately show ?thesis using q by (auto simp: promise_ok_def)
qed

lemma exec_item_total:
  assumes "inv (w # ws) P (heap s)"
  shows "\<exists>ws' s'. exec_item w s = Ok (ws', s')"
proof (cases w)
  case (WThen h v)
  show ?thesis
  proof (cases h)
    case (ThenHn q f)
    with WThen inv_target_facts [OF assms, of q] show ?thesis
      by (auto intro!: nested_call_total)
  qed (simp add: WThen)
next
  case (WErr h e)
  show ?thesis
  proof (cases h)
    case (ThenCatchHn q)
    with WErr inv_target_facts [OF assms, of q] show ?thesis
      by (auto intro!: nested_call_total)
  next
    case (CatchHn q f)
    with WErr inv_target_facts [OF assms, of q] show ?thesis
      by (auto intro!: nested_call_total)
  qed (simp add: WErr)
qed simp

lemma inv_run:
  "inv ws P (heap s) \<Longrightarrow>
   \<exists>s'. run ws s = Ok s' \<and> inv [] P (heap s') \<and> evolves (heap s) (heap s') \<and>
        length (heap s') = length (heap s)"
proof (induction ws s rule: run.induct)
  case (1 s)
  then show ?case by simp
next
  case (2 w ws s)
  from exec_item_total [OF "2.prems"] obtain ws1 s1 where ex: "exec_item w s = Ok (ws1, s1)" by blast
  from inv_exec_item [OF "2.prems" ex]
  have i1: "inv (ws1 @ ws) P (heap s1)" and e1: "evolves (heap s) (heap s1)"
    and l1: "length (heap s1) = length (heap s)" by auto
  from "2.IH" [OF ex refl i1] obtain s' where
    "run (ws1 @ ws) s1 = Ok s'" "inv [] P (heap s')" "evolves (heap s1) (heap s')"
    "length (heap s') = length (heap s1)" by blast
  with ex e1 l1 show ?case by (auto intro: evolves_trans)
qed

lemma apply_fnT_pool': "apply_fnT f v s = (re, s1) \<Longrightarrow> pool s1 = pool s"
  using apply_fnT_UserFn_fields(1) [of f v s] by simp

lemma apply_fnE_pool': "apply_fnE f v s = (re, s1) \<Longrightarrow> pool s1 = pool s"
  using apply_fnE_fields(1) [of f v s] by simp

lemma eval_producer_pool: "eval_producer q f s = Ok (re, s1) \<Longrightarrow> pool s1 = pool s"
  by (cases f)
    (auto simp: obind_Ok_iff LockDone_Ok UnlockDone_def note_invoked_def
      dest!: apply_fnT_pool' apply_fnE_pool' split: if_splits)

lemma exec_item_pool: "exec_item w s = Ok (ws', s') \<Longrightarrow> pool s' = pool s"
proof -
  assume ex: "exec_item w s = Ok (ws', s')"
  consider "work_targets w = []" | q where "work_targets w = [q]"
    using work_targets_cases [of w] by blast
  then show ?thesis
  proof cases
    case 1
    from exec_item_no_target [OF ex 1] show ?thesis
      by (cases w) (auto simp: UnlockDone_def)
  next
    case 2
    from exec_item_handler [OF ex 2] show ?thesis
      by (auto dest: eval_producer_pool)
  qed
qed

lemma run_pool: "run ws s = Ok s' \<Longrightarrow> pool s' = pool s"
proof (induction ws s rule: run.induct)
  case (1 s)
  then show ?case by simp
next
  case (2 w ws s)
  from "2.prems" obtain ws1 s1 where ex: "exec_item w s = Ok (ws1, s1)" and r: "run (ws1 @ ws) s1 = Ok s'"
    by (auto split: outcome.splits)
  from "2.IH" [OF ex refl r] exec_item_pool [OF ex] show ?case by simp
qed

lemma targets_ok_fresh:
  assumes ok: "targets_ok ws P h"
    and m: "mset (targets ws' P' h') = add_mset (length h) (mset (targets ws P h))"
    and l: "length h' = Suc (length h)" and n: "notDone (h' ! length h)"
    and k: "\<And>t. t < length h \<Longrightarrow> notDone (h ! t) \<Longrightarrow> notDone (h' ! t)"
  shows "targets_ok ws' P' h'"
proof -
  from ok have d: "distinct (targets ws P h)"
    and v: "\<And>t. t \<in> set (targets ws P h) \<Longrightarrow> t < length h \<and> notDone (h ! t)"
    by (auto simp: targets_ok_def)
  from v have "length h \<notin> set (targets ws P h)" by auto
  with d have "distinct (length h # targets ws P h)" by simp
  moreover from m have mm: "mset (targets ws' P' h') = mset (length h # targets ws P h)" by simp
  ultimately have "distinct (targets ws' P' h')" by (metis mset_eq_imp_distinct_iff)
  moreover have "set (targets ws' P' h') = insert (length h) (set (targets ws P h))"
    using mm by (metis list.simps(15) mset_eq_setD)
  ultimately show ?thesis using v l n k by (fastforce simp: targets_ok_def less_Suc_eq)
qed

lemma targets_ok_same:
  assumes ok: "targets_ok ws P h"
    and m: "mset (targets ws' P' h') = mset (targets ws P h)"
    and l: "length h \<le> length h'"
    and k: "\<And>t. t < length h \<Longrightarrow> notDone (h ! t) \<Longrightarrow> notDone (h' ! t)"
  shows "targets_ok ws' P' h'"
proof -
  from ok have d: "distinct (targets ws P h)"
    and v: "\<And>t. t \<in> set (targets ws P h) \<Longrightarrow> t < length h \<and> notDone (h ! t)"
    by (auto simp: targets_ok_def)
  from m d have "distinct (targets ws' P' h')" by (metis mset_eq_imp_distinct_iff)
  moreover have "set (targets ws' P' h') = set (targets ws P h)"
    using m by (metis mset_eq_setD)
  ultimately show ?thesis using v l k by (fastforce simp: targets_ok_def)
qed

lemma promise_targets_fresh [simp]:
  "promise_targets fresh_promise = []" "then_targets fresh_promise = []"
  "promise_targets (fresh_promise\<lparr>notDone := False\<rparr>) = []"
  "then_targets (fresh_promise\<lparr>notDone := False\<rparr>) = []"
  by (simp_all add: promise_targets_def then_targets_def handlers_in_def)

lemma promise_ok_fresh [simp]: "promise_ok fresh_promise" "promise_ok (fresh_promise\<lparr>notDone := False\<rparr>)"
  by (simp_all add: promise_ok_def)

lemma Inv_promise:
  assumes "Inv s" "p < length (heap s)"
  shows "promise_ok (heap s ! p)" "\<not> lock (heap s ! p)" "\<not> doneMu (heap s ! p)"
  using assms by (auto simp: Inv_def inv_def list_all_length locks_ok_def promise_ok_def)

lemma inv_append_promise:
  assumes i: "inv [] P h" and X: "promise_ok X" "\<not> doneMu X" "promise_targets X = []"
  shows "inv [] P (h @ [X])"
proof -
  from i have tok: "targets_ok [] P h" and pok: "list_all promise_ok h"
    and lok: "locks_ok [] h" and gok: "list_all (goroutine_ok h) P"
    by (auto simp: inv_def)
  have 1: "targets_ok [] P (h @ [X])"
    using tok by (rule targets_ok_same) (simp_all add: targets_def X nth_append)
  have 2: "list_all promise_ok (h @ [X])" using pok X by simp
  have 3: "locks_ok [] (h @ [X])" using lok X by (auto simp: locks_ok_def nth_append)
  have 4: "list_all (goroutine_ok (h @ [X])) P"
    using gok by (rule pool_ok_mono) (simp_all add: nth_append)
  from 1 2 3 4 show ?thesis by (simp add: inv_def)
qed

lemma inv_spawn:
  assumes i: "inv [] P h" and n: "n < length h" "notDone (h ! n)" "n \<notin> set (targets [] P h)"
    and g: "producer_ok h f"
  shows "inv [] (P @ [GoCall n f]) h"
proof -
  from i have tok: "targets_ok [] P h" and pok: "list_all promise_ok h"
    and lok: "locks_ok [] h" and gok: "list_all (goroutine_ok h) P"
    by (auto simp: inv_def)
  have "set (targets [] (P @ [GoCall n f]) h) = insert n (set (targets [] P h))"
    by (auto simp: targets_def)
  moreover have "distinct (targets [] (P @ [GoCall n f]) h)"
    using tok n(3) by (auto simp: targets_ok_def targets_def)
  ultimately have 1: "targets_ok [] (P @ [GoCall n f]) h"
    using tok n by (auto simp: targets_ok_def)
  from 1 pok lok gok g show ?thesis by (simp add: inv_def)
qed

lemma NewFn_Inv:
  assumes "Inv s" "producer_ok (heap s) f"
  shows "Inv (snd (NewFn f s)) \<and> fst (NewFn f s) = length (heap s) \<and>
         evolves (heap s) (heap (snd (NewFn f s)))"
proof -
  let ?h = "heap s @ [fresh_promise]"
  from assms(1) have i: "inv [] (pool s) (heap s)" by (simp add: Inv_def)
  from inv_append_promise [OF i, of fresh_promise] have i1: "inv [] (pool s) ?h" by simp
  from i1 have "length (heap s) \<notin> set (targets [] (pool s) ?h)"
    using i by (auto simp: inv_def targets_ok_def targets_def)
  moreover have "producer_ok ?h f"
    using assms(2) by (rule producer_ok_mono) simp
  ultimately have "inv [] (pool s @ [GoCall (length (heap s)) f]) ?h"
    using inv_spawn [OF i1, of "length (heap s)" f] by simp
  then show ?thesis by (simp add: NewFn_simp Inv_def evolves_def nth_append)
qed

lemma inv_register:
  assumes i: "inv [] P h" and p: "p < length h" "notDone (h ! p)"
    and old: "thenList (h ! p) = Some thl" "errorList (h ! p) = Some erl"
    and Y: "thenList Y = Some (thl @ tn)" "errorList Y = Some (erl @ en)"
      "notDone Y" "\<not> lock Y" "\<not> doneMu Y"
    and en: "concat (map err_target en) = [length h]"
    and tn: "concat (map then_target tn) = [] \<or> concat (map then_target tn) = [length h]"
  shows "inv [] P (h[p := Y] @ [fresh_promise])"
proof -
  let ?n = "length h"
  let ?h = "h[p := Y] @ [fresh_promise]"
  from i have tok: "targets_ok [] P h" and pok: "list_all promise_ok h"
    and lok: "locks_ok [] h" and gok: "list_all (goroutine_ok h) P"
    by (auto simp: inv_def)
  from pok p have pp: "promise_ok (h ! p)" by (simp add: list_all_length)
  have pY: "promise_targets Y = promise_targets (h ! p) @ [?n]"
    using old Y en by (simp add: promise_targets_def handlers_in_def)
  have "mset (concat (map promise_targets (h[p := Y]))) + mset (promise_targets (h ! p)) =
        mset (concat (map promise_targets h)) + mset (promise_targets Y)"
    by (rule mset_concat_map_update [OF p(1)])
  then have "mset (concat (map promise_targets (h[p := Y]))) =
        add_mset ?n (mset (concat (map promise_targets h)))"
    by (simp add: pY)
  then have m: "mset (targets [] P ?h) = add_mset ?n (mset (targets [] P h))"
    by (simp add: targets_def)
  have 1: "targets_ok [] P ?h"
    using tok m by (rule targets_ok_fresh) (use p Y in \<open>auto simp: nth_append nth_update_if\<close>)
  have sub: "set (promise_targets (h ! p)) \<subseteq> set (targets [] P h)"
    using p(1) nth_mem [of p h] by (auto simp: targets_def)
  from tok have "?n \<notin> set (targets [] P h)" by (auto simp: targets_ok_def)
  with sub pp have nn: "?n \<notin> set (then_targets (h ! p))" by (auto simp: promise_ok_def)
  define T where "T = concat (map then_target tn)"
  have tY: "then_targets Y = then_targets (h ! p) @ T"
    using old Y by (simp add: then_targets_def handlers_in_def T_def)
  from tn have T: "T = [] \<or> T = [?n]" by (simp add: T_def)
  have "promise_ok Y"
    unfolding promise_ok_def tY pY using pp T nn Y by (auto simp: promise_ok_def)
  with pok have 2: "list_all promise_ok ?h" by (simp add: list_all_update)
  have 3: "locks_ok [] ?h"
    using lok Y by (auto simp: locks_ok_def nth_append nth_update_if)
  have 4: "list_all (goroutine_ok ?h) P"
    using gok by (rule pool_ok_mono) (use p in \<open>auto simp: nth_append nth_update_if\<close>)
  from 1 2 3 4 show ?thesis by (simp add: inv_def)
qed

lemma Then_Inv:
  assumes "Inv s" "p < length (heap s)"
  shows "\<exists>s'. Then p f s = Ok (length (heap s), s') \<and> Inv s' \<and> evolves (heap s) (heap s') \<and>
              length (heap s') = Suc (length (heap s))"
proof (cases "notDone (heap s ! p)")
  case True
  from Inv_promise [OF assms] True obtain thl erl where
    l: "thenList (heap s ! p) = Some thl" "errorList (heap s ! p) = Some erl"
    by (auto simp: promise_ok_def)
  let ?Y = "(heap s ! p)\<lparr>thenList := Some (thl @ [ThenHn (length (heap s)) f]),
               errorList := Some (erl @ [ThenCatchHn (length (heap s))])\<rparr>"
  from assms(1) have "inv [] (pool s) (heap s)" by (simp add: Inv_def)
  from inv_register [OF this assms(2) True l, of ?Y "[ThenHn (length (heap s)) f]" "[ThenCatchHn (length (heap s))]"]
    Inv_promise [OF assms] True
  have "inv [] (pool s) ((heap s)[p := ?Y] @ [fresh_promise])" by simp
  moreover have "evolves (heap s) ((heap s)[p := ?Y] @ [fresh_promise])"
    using True by (auto simp: evolves_def nth_append nth_update_if)
  ultimately show ?thesis
    using Then_pending [OF assms(2) Inv_promise(2) [OF assms] True l, of f]
    by (simp add: Inv_def)
next
  case False
  have "producer_ok (heap s) (ThenDoneBody p (err (heap s ! p)) (res (heap s ! p)) f)"
    using assms(2) by simp
  from NewFn_Inv [OF assms(1) this] show ?thesis
    using Then_done [OF assms(2) Inv_promise(2) [OF assms] False, of f]
    by (auto simp: NewFn_simp)
qed

lemma Catch_Inv:
  assumes "Inv s" "p < length (heap s)"
  shows "\<exists>s'. Catch p f s = Ok (length (heap s), s') \<and> Inv s' \<and> evolves (heap s) (heap s') \<and>
              length (heap s') = Suc (length (heap s))"
proof (cases "notDone (heap s ! p)")
  case True
  from Inv_promise [OF assms] True obtain thl erl where
    l: "thenList (heap s ! p) = Some thl" "errorList (heap s ! p) = Some erl"
    by (auto simp: promise_ok_def)
  let ?Y = "(heap s ! p)\<lparr>errorList := Some (erl @ [CatchHn (length (heap s)) f])\<rparr>"
  from assms(1) have "inv [] (pool s) (heap s)" by (simp add: Inv_def)
  from inv_register [OF this assms(2) True l, of ?Y "[]" "[CatchHn (length (heap s)) f]"]
    Inv_promise [OF assms] True l
  have "inv [] (pool s) ((heap s)[p := ?Y] @ [fresh_promise])" by simp
  moreover have "evolves (heap s) ((heap s)[p := ?Y] @ [fresh_promise])"
    using True by (auto simp: evolves_def nth_append nth_update_if)
  ultimately show ?thesis
    using Catch_pending [OF assms(2) Inv_promise(2) [OF assms] True l(2), of f]
    by (simp add: Inv_def)
next
  case False
  from assms(1) have i: "inv [] (pool s) (heap s)" by (simp add: Inv_def)
  show ?thesis
  proof (cases "err (heap s ! p)")
    case None
    from inv_append_promise [OF i, of "fresh_promise\<lparr>notDone := False\<rparr>"]
    have "inv [] (pool s) (heap s @ [fresh_promise\<lparr>notDone := False\<rparr>])" by simp
    then show ?thesis
      using Catch_done_nil [OF assms(2) Inv_promise(2) [OF assms] False None, of f]
      by (simp add: Inv_def evolves_def nth_append)
  next
    case (Some e)
    have "producer_ok (heap s) (CatchDoneBody p (Some e) f)"
      using assms(2) by simp
    from NewFn_Inv [OF assms(1) this] show ?thesis
      using Catch_done_err [OF assms(2) Inv_promise(2) [OF assms] False Some, of f]
      by (auto simp: NewFn_simp)
  qed
qed

lemma inv_pool_update_free:
  assumes i: "inv ws P h" and g: "go_targets (P ! i) = []" "go_targets g = []" "goroutine_ok h g"
  shows "inv ws (P[i := g]) h"
proof -
  have "map go_targets (P[i := g]) = map go_targets P"
    by (rule map_update_same) (simp add: g)
  with i g(3) show ?thesis
    by (simp add: inv_def targets_ok_def targets_def list_all_update)
qed

lemma go_targets_split:
  assumes "i < length P"
  shows "mset (concat (map go_targets P)) =
         mset (go_targets (P ! i)) + mset (concat (map go_targets (P[i := GoDone])))"
  using mset_concat_map_update [OF assms, of go_targets GoDone] by (simp add: add.commute)

lemma inv_settle_goroutine:
  fixes e r
  assumes i: "inv [] P h" and n: "i < length P" "P ! i = GoCall q f"
  defines "X \<equiv> (h ! q)\<lparr>notDone := False, err := e, res := r, thenList := None, errorList := None\<rparr>"
  shows "inv [] (P[i := GoPass q r e (thenList (h ! q)) (errorList (h ! q))]) (h[q := X])"
proof -
  let ?g = "GoPass q r e (thenList (h ! q)) (errorList (h ! q))"
  from i have tok: "targets_ok [] P h" and pok: "list_all promise_ok h"
    and lok: "locks_ok [] h" and gok: "list_all (goroutine_ok h) P"
    by (auto simp: inv_def)
  have qt: "q \<in> set (targets [] P h)"
    using n nth_mem [of i P] by (force simp: targets_def)
  with tok have q: "q < length h" "notDone (h ! q)" by (auto simp: targets_ok_def)
  from pok q have pq: "promise_ok (h ! q)" by (simp add: list_all_length)
  have X0: "promise_targets X = []" "then_targets X = []"
    by (simp_all add: X_def promise_targets_def then_targets_def handlers_in_def)
  have C: "mset (go_targets ?g) \<subseteq># mset (promise_targets (h ! q))"
  proof (cases "e = None")
    case True
    then have "go_targets ?g = then_targets (h ! q)" by (simp add: then_targets_def)
    with pq show ?thesis by (auto simp: promise_ok_def intro: distinct_subset_mset)
  next
    case False
    then have "go_targets ?g = promise_targets (h ! q)" by (simp add: promise_targets_def)
    then show ?thesis by simp
  qed
  define H where "H = mset (concat (map promise_targets h))"
  define H' where "H' = mset (concat (map promise_targets (h[q := X])))"
  have HH: "H' + mset (promise_targets (h ! q)) = H"
    using mset_concat_map_update [OF q(1), of promise_targets X] X0 by (simp add: H_def H'_def)
  define G0 where "G0 = mset (concat (map go_targets (P[i := GoDone])))"
  have old: "mset (targets [] P h) = add_mset q (G0 + H)"
    using go_targets_split [OF n(1)] n(2) by (simp add: targets_def G0_def H_def)
  have "mset (concat (map go_targets (P[i := ?g]))) = mset (go_targets ?g) + G0"
    using go_targets_split [of i "P[i := ?g]"] n(1) by (simp add: G0_def)
  then have new: "mset (targets [] (P[i := ?g]) (h[q := X])) = mset (go_targets ?g) + G0 + H'"
    by (simp add: targets_def H'_def)
  have "mset (go_targets ?g) + G0 + H' \<subseteq># G0 + H"
    using C HH by (metis add.commute add.left_commute subset_mset.add_left_mono)
  with new have "mset (targets [] (P[i := ?g]) (h[q := X])) \<subseteq># G0 + H" by simp
  from targets_ok_settle [OF tok old this] have 1: "targets_ok [] (P[i := ?g]) (h[q := X])" .
  have "promise_ok X"
    using pq by (simp add: promise_ok_def X_def then_targets_def promise_targets_def handlers_in_def)
  with pok have 2: "list_all promise_ok (h[q := X])" by (rule list_all_update)
  have 3: "locks_ok [] (h[q := X])"
    using lok q by (auto simp: locks_ok_def nth_update_if X_def)
  have a: "list_all (goroutine_ok (h[q := X])) P"
    using gok by (rule pool_ok_mono) (use q in \<open>auto simp: nth_update_if X_def\<close>)
  have b: "goroutine_ok (h[q := X]) ?g"
    using q pq by (auto simp: X_def promise_ok_def)
  from a b have 4: "list_all (goroutine_ok (h[q := X])) (P[i := ?g])"
    by (rule list_all_update)
  from 1 2 3 4 show ?thesis by (simp add: inv_def)
qed

lemma inv_pass_begin:
  assumes i: "inv [] P h" and n: "i < length P" "P ! i = GoPass p r e thl erl"
    and hw: "handlers_work r e thl erl = Some hw"
  shows "inv (hw @ [WUnlockDone p]) (P[i := GoDone]) (h[p := (h ! p)\<lparr>doneMu := True\<rparr>])"
proof -
  let ?h = "h[p := (h ! p)\<lparr>doneMu := True\<rparr>]"
  from i have tok: "targets_ok [] P h" and pok: "list_all promise_ok h"
    and lok: "locks_ok [] h" and gok: "list_all (goroutine_ok h) P"
    by (auto simp: inv_def)
  from gok n have g: "goroutine_ok h (GoPass p r e thl erl)"
    by (metis list_all_length)
  then have p: "p < length h" "\<not> notDone (h ! p)" by auto
  have m: "map promise_targets ?h = map promise_targets h"
    by (rule map_update_same) (simp add: promise_targets_def)
  have nd: "notDone (?h ! t) = notDone (h ! t)" for t
    by (simp add: nth_update_if)
  have "concat (map work_targets hw) = go_targets (P ! i)"
    using handlers_work_targets [OF hw] n(2) by simp
  then have "mset (targets (hw @ [WUnlockDone p]) (P[i := GoDone]) ?h) = mset (targets [] P h)"
    using go_targets_split [OF n(1)] by (simp add: targets_def m)
  with tok have 1: "targets_ok (hw @ [WUnlockDone p]) (P[i := GoDone]) ?h"
    by (rule targets_ok_same) (simp_all add: nd)
  from pok p have "promise_ok (h ! p)" by (simp add: list_all_length)
  then have "promise_ok ((h ! p)\<lparr>doneMu := True\<rparr>)"
    by (simp add: promise_ok_def then_targets_def promise_targets_def)
  with pok have 2: "list_all promise_ok ?h" by (rule list_all_update)
  have u: "unlocks (hw @ [WUnlockDone p]) = [p]"
    by (simp add: unlocks_append handlers_work_unlocks [OF hw])
  have 3: "locks_ok (hw @ [WUnlockDone p]) ?h"
    using lok p unfolding locks_ok_def u by (auto simp: nth_update_if)
  have "list_all (goroutine_ok ?h) P"
    using gok by (rule pool_ok_mono) (simp_all add: nd)
  moreover have "goroutine_ok ?h GoDone" by simp
  ultimately have 4: "list_all (goroutine_ok ?h) (P[i := GoDone])"
    by (rule list_all_update)
  from 1 2 3 4 show ?thesis by (simp add: inv_def)
qed

lemma Then_pool:
  assumes "Inv s" "p < length (heap s)" "Then p f s = Ok (q, s')"
  shows "\<exists>gs. pool s' = pool s @ gs"
proof (cases "notDone (heap s ! p)")
  case True
  from Inv_promise [OF assms(1,2)] True obtain thl erl where
    l: "thenList (heap s ! p) = Some thl" "errorList (heap s ! p) = Some erl"
    by (auto simp: promise_ok_def)
  from Then_pending [OF assms(2) Inv_promise(2) [OF assms(1,2)] True l, of f] assms(3)
  show ?thesis by auto
next
  case False
  from Then_done [OF assms(2) Inv_promise(2) [OF assms(1,2)] False, of f] assms(3)
  show ?thesis by (auto simp: NewFn_simp)
qed

lemma Catch_pool:
  assumes "Inv s" "p < length (heap s)" "Catch p f s = Ok (q, s')"
  shows "\<exists>gs. pool s' = pool s @ gs"
proof (cases "notDone (heap s ! p)")
  case True
  from Inv_promise [OF assms(1,2)] True obtain thl erl where
    l: "thenList (heap s ! p) = Some thl" "errorList (heap s ! p) = Some erl"
    by (auto simp: promise_ok_def)
  from Catch_pending [OF assms(2) Inv_promise(2) [OF assms(1,2)] True l(2), of f] assms(3)
  show ?thesis by auto
next
  case False
  show ?thesis
  proof (cases "err (heap s ! p)")
    case None
    from Catch_done_nil [OF assms(2) Inv_promise(2) [OF assms(1,2)] False None, of f] assms(3)
    show ?thesis by auto
  next
    case (Some e)
    from Catch_done_err [OF assms(2) Inv_promise(2) [OF assms(1,2)] False Some, of f] assms(3)
    show ?thesis by auto
  qed
qed

lemma eval_producer_total:
  assumes "producer_ok (heap s) f" "\<And>p. p < length (heap s) \<Longrightarrow> \<not> doneMu (heap s ! p)"
  shows "\<exists>x. eval_producer q f s = Ok x"
  using assms by (cases f) (simp_all add: eval_producer_ThenDoneBody eval_producer_CatchDoneBody del: eval_producer.simps(5,6))

lemma Inv_frames [simp]:
  "Inv (s\<lparr>errChans := c\<rparr>) = Inv s" "Inv (s\<lparr>alls := a\<rparr>) = Inv s"
  "Inv (s\<lparr>races := r\<rparr>) = Inv s" "Inv (s\<lparr>iters := k\<rparr>) = Inv s"
  "Inv (s\<lparr>world := w\<rparr>) = Inv s" "Inv (s\<lparr>invoked := l\<rparr>) = Inv s"
  by (simp_all add: Inv_def)

lemma Inv_group_done [simp]: "Inv (group_done a m s) = Inv s"
  by (simp add: group_done_def)

lemma sched_step_Inv:
  assumes I: "Inv s"
  shows "\<exists>s'. sched_step i s = Ok s' \<and> Inv s' \<and> evolves (heap s) (heap s') \<and>
              length (pool s) \<le> length (pool s')"
proof (cases "i < length (pool s)")
  case False
  with I show ?thesis by (simp add: sched_step_def)
next
  case i: True
  from I have inv0: "inv [] (pool s) (heap s)" by (simp add: Inv_def)
  then have gok: "goroutine_ok (heap s) (pool s ! i)"
    using i by (simp add: inv_def list_all_length)
  show ?thesis
  proof (cases "pool s ! i")
    case (GoCall q f)
    have "q \<in> set (targets [] (pool s) (heap s))"
      using i GoCall nth_mem [of i "pool s"] by (force simp: targets_def)
    with inv0 have q: "q < length (heap s)" "notDone (heap s ! q)"
      by (auto simp: inv_def targets_ok_def)
    from eval_producer_total [of s f q] gok GoCall Inv_promise(3) [OF I]
    obtain x where "eval_producer q f s = Ok x" by auto
    then obtain r e s1 where ev: "eval_producer q f s = Ok ((r, e), s1)" by (cases x) auto
    from sched_step_GoCall [OF i GoCall q(1) Inv_promise(2) [OF I q(1)] ev]
      inv_settle_goroutine [OF inv0 i GoCall, where e = e and r = r]
      eval_producer_pool [OF ev] q
    show ?thesis
      by (auto simp: Inv_def intro: evolves_update_pending)
  next
    case (GoPass p r e thl erl)
    with gok have p: "p < length (heap s)" "\<not> notDone (heap s ! p)" by auto
    from gok GoPass obtain hw where hw: "handlers_work r e thl erl = Some hw"
      by (auto simp: handlers_work_def split: if_splits)
    let ?s1 = "s\<lparr>heap := (heap s)[p := (heap s ! p)\<lparr>doneMu := True\<rparr>]\<rparr>"
    have pb: "pass_begin p r e thl erl s = Ok (hw @ [WUnlockDone p], ?s1)"
      using p Inv_promise(3) [OF I p(1)] hw by (simp add: pass_begin_def LockDone_def)
    from inv_pass_begin [OF inv0 i GoPass hw]
    have "inv (hw @ [WUnlockDone p]) ((pool s)[i := GoDone]) (heap ?s1)" by simp
    from inv_run [OF this] obtain s' where
      r: "run (hw @ [WUnlockDone p]) ?s1 = Ok s'" and i': "inv [] ((pool s)[i := GoDone]) (heap s')"
      and ev: "evolves (heap ?s1) (heap s')" by blast
    from run_pool [OF r] have ps: "pool s' = pool s" by simp
    have "evolves (heap s) (heap ?s1)" by (auto intro: evolves_update_same)
    from this ev have "evolves (heap s) (heap s')" by (rule evolves_trans)
    with pb r i' ps i GoPass show ?thesis
      by (simp add: sched_step_def call_pass_def Inv_def)
  next
    case (AllWorkerThen a k x)
    with gok have x: "x < length (heap s)" by simp
    let ?s0 = "s\<lparr>errChans := errChans s @ [[]]\<rparr>"
    have I0: "Inv ?s0" using I by simp
    from Then_Inv [OF I0, of x "AllThenFn a k (length (errChans s))"] x obtain s1 where
      t: "Then x (AllThenFn a k (length (errChans s))) ?s0 = Ok (length (heap s), s1)" and I1: "Inv s1"
      and ev: "evolves (heap s) (heap s1)" and l: "length (heap s1) = Suc (length (heap s))"
      by auto
    from Then_pool [OF I0 _ t] x obtain gs where ps: "pool s1 = pool s @ gs" by auto
    with i AllWorkerThen have pi: "pool s1 ! i = AllWorkerThen a k x" by (simp add: nth_append)
    from I1 have "inv [] (pool s1) (heap s1)" by (simp add: Inv_def)
    from inv_pool_update_free [OF this, of i "AllWorkerCatch a x (length (errChans s))"] pi x l
    have "Inv (s1\<lparr>pool := (pool s1)[i := AllWorkerCatch a x (length (errChans s))]\<rparr>)"
      by (simp add: Inv_def)
    with t ev ps i AllWorkerThen show ?thesis
      by (simp add: sched_step_def)
  next
    case (AllWorkerCatch a x c)
    with gok have x: "x < length (heap s)" by simp
    from Catch_Inv [OF I, of x "AllCatchFn c"] x obtain s1 where
      t: "Catch x (AllCatchFn c) s = Ok (length (heap s), s1)" and I1: "Inv s1"
      and ev: "evolves (heap s) (heap s1)" and l: "length (heap s1) = Suc (length (heap s))"
      by auto
    from Catch_pool [OF I _ t] x obtain gs where ps: "pool s1 = pool s @ gs" by auto
    with i AllWorkerCatch have pi: "pool s1 ! i = AllWorkerCatch a x c" by (simp add: nth_append)
    from I1 have "inv [] (pool s1) (heap s1)" by (simp add: Inv_def)
    from inv_pool_update_free [OF this, of i "AllWorkerRecv a c"] pi
    have "Inv (s1\<lparr>pool := (pool s1)[i := AllWorkerRecv a c]\<rparr>)"
      by (simp add: Inv_def)
    with t ev ps i AllWorkerCatch show ?thesis
      by (simp add: sched_step_def)
  next
    case (AllWorkerRecv a c)
    from inv_pool_update_free [OF inv0, of i GoDone] AllWorkerRecv
    have "inv [] ((pool s)[i := GoDone]) (heap s)" by simp
    moreover have "(pool s)[i := AllWorkerRecv a c] = pool s"
      using AllWorkerRecv [symmetric] by (simp add: list_update_same_conv i)
    ultimately show ?thesis
      using i AllWorkerRecv I
      by (cases "errChans s ! c") (simp_all add: sched_step_def Inv_def group_done_def)
  next
    case GoDone
    then have "(pool s)[i := GoDone] = pool s"
      by (metis list_update_id)
    with i GoDone I show ?thesis by (simp add: sched_step_def)
  qed
qed

lemma evolves_length: "evolves h h' \<Longrightarrow> length h \<le> length h'"
  by (simp add: evolves_def)

lemma run_sched_Inv:
  "Inv s \<Longrightarrow> \<exists>s'. run_sched sched s = Ok s' \<and> Inv s' \<and> evolves (heap s) (heap s')"
proof (induction sched arbitrary: s)
  case Nil
  then show ?case by simp
next
  case (Cons i sched)
  from sched_step_Inv [OF Cons.prems, of i] obtain s1 where
    1: "sched_step i s = Ok s1" "Inv s1" "evolves (heap s) (heap s1)" by blast
  from Cons.IH [OF 1(2)] obtain s' where
    "run_sched sched s1 = Ok s'" "Inv s'" "evolves (heap s1) (heap s')" by blast
  with 1 show ?case by (auto intro: evolves_trans)
qed

lemma await_Inv:
  "Inv s \<Longrightarrow> await ready sched s = Ok s' \<Longrightarrow> Inv s' \<and> evolves (heap s) (heap s') \<and> ready s'"
proof (induction sched arbitrary: s)
  case Nil
  then show ?case by (auto split: if_splits)
next
  case (Cons i sched)
  show ?case
  proof (cases "ready s")
    case True
    with Cons.prems show ?thesis by simp
  next
    case False
    from sched_step_Inv [OF Cons.prems(1), of i] obtain s1 where
      1: "sched_step i s = Ok s1" "Inv s1" "evolves (heap s) (heap s1)" by blast
    with Cons.prems(2) False have "await ready sched s1 = Ok s'" by simp
    from Cons.IH [OF 1(2) this] 1(3) show ?thesis by (auto intro: evolves_trans)
  qed
qed

lemma inv_append_workers:
  assumes "inv [] P h" "list_all (goroutine_ok h) gs" "concat (map go_targets gs) = []"
  shows "inv [] (P @ gs) h"
proof -
  have "targets [] (P @ gs) h = targets [] P h"
    unfolding targets_def using assms(3) by (simp del: concat_eq_Nil_conv)
  with assms(1,2) show ?thesis by (simp add: inv_def targets_ok_def)
qed

lemma All_begin_Inv:
  assumes "Inv s" "list_all (\<lambda>p. p < length (heap s)) ps"
  shows "Inv (snd (All_begin ps s)) \<and> heap (snd (All_begin ps s)) = heap s"
proof -
  let ?gs = "map (\<lambda>i. AllWorkerThen (length (alls s)) i (ps ! i)) [0..<length ps]"
  have 1: "list_all (goroutine_ok (heap s)) ?gs"
    using assms(2) by (simp add: list_all_length)
  have 2: "concat (map go_targets ?gs) = []"
    by (simp add: o_def)
  from assms(1) have "inv [] (pool s) (heap s)" by (simp add: Inv_def)
  from inv_append_workers [OF this 1 2] show ?thesis
    by (simp add: All_begin_def Inv_def)
qed

lemma All_Inv:
  assumes "Inv s" "list_all (\<lambda>p. p < length (heap s)) ps" "All ps sched s = Ok (r, s')"
  shows "Inv s' \<and> evolves (heap s) (heap s')"
proof -
  obtain a s1 where b: "All_begin ps s = (a, s1)" by (cases "All_begin ps s")
  with All_begin_Inv [OF assms(1,2)] have 1: "Inv s1" "heap s1 = heap s" by auto
  from assms(3) b obtain s2 where "await (\<lambda>t. group_running (alls t ! a) = 0) sched s1 = Ok s2" "s' = s2"
    by (auto simp: All_def obind_Ok_iff)
  with await_Inv [OF 1(1)] 1(2) show ?thesis by auto
qed

lemma race_loop_Inv:
  "Inv s \<Longrightarrow> list_all (\<lambda>p. p < length (heap s)) ps \<Longrightarrow> race_loop r ps cs s = Ok (cs', s') \<Longrightarrow>
   Inv s' \<and> evolves (heap s) (heap s')"
proof (induction ps arbitrary: s cs)
  case Nil
  then show ?case by simp
next
  case (Cons p ps)
  from Cons.prems(3) obtain s1 q1 s2 s3 q2 s4 where
    1: "run_sched (fst (next_chunk cs)) s = Ok s1"
    and 2: "Then p (RaceThenFn r) s1 = Ok (q1, s2)"
    and 3: "run_sched (fst (next_chunk (snd (next_chunk cs)))) s2 = Ok s3"
    and 4: "Catch p (RaceCatchFn r) s3 = Ok (q2, s4)"
    and 5: "race_loop r ps (snd (next_chunk (snd (next_chunk cs)))) s4 = Ok (cs', s')"
    by (auto simp: obind_Ok_iff)
  from run_sched_Inv [OF Cons.prems(1), of "fst (next_chunk cs)"] 1
  have a: "Inv s1" "evolves (heap s) (heap s1)" by auto
  from Cons.prems(2) evolves_length [OF a(2)] have p1: "p < length (heap s1)" by simp
  from Then_Inv [OF a(1) p1, of "RaceThenFn r"] 2
  have b: "Inv s2" "evolves (heap s1) (heap s2)" by auto
  from run_sched_Inv [OF b(1), of "fst (next_chunk (snd (next_chunk cs)))"] 3
  have c: "Inv s3" "evolves (heap s2) (heap s3)" by auto
  from p1 evolves_length [OF b(2)] evolves_length [OF c(2)] have p3: "p < length (heap s3)" by simp
  from Catch_Inv [OF c(1) p3, of "RaceCatchFn r"] 4
  have d: "Inv s4" "evolves (heap s3) (heap s4)" by auto
  have e: "evolves (heap s) (heap s4)"
    using a(2) b(2) c(2) d(2) by (blast intro: evolves_trans)
  have "list_all (\<lambda>p. p < length (heap s4)) ps"
    using Cons.prems(2) evolves_length [OF e] by (auto simp: list_all_iff)
  from Cons.IH [OF d(1) this 5] e show ?case by (auto intro: evolves_trans)
qed

lemma Race_Inv:
  assumes "Inv s" "list_all (\<lambda>p. p < length (heap s)) ps" "Race ps sched s = Ok (r, s')"
  shows "Inv s' \<and> evolves (heap s) (heap s')"
proof (cases "ps = []")
  case True
  with assms show ?thesis by (simp add: Race_def)
next
  case False
  let ?s0 = "s\<lparr>races := races s @ [\<lparr>race_done = False, race_res = default, errorCh = []\<rparr>]\<rparr>"
  from assms(3) False obtain cs s1 s2 where
    1: "race_loop (length (races s)) ps sched ?s0 = Ok (cs, s1)"
    and 2: "await (\<lambda>t. errorCh (races t ! length (races s)) \<noteq> []) (concat cs) s1 = Ok s2"
    and 3: "s' = s2\<lparr>races := (races s2)[length (races s) := (races s2 ! length (races s))
                 \<lparr>errorCh := tl (errorCh (races s2 ! length (races s)))\<rparr>]\<rparr>"
    by (auto simp: Race_def Let_def obind_Ok_iff)
  have "Inv ?s0" using assms(1) by simp
  from race_loop_Inv [OF this _ 1] assms(2) have a: "Inv s1" "evolves (heap s) (heap s1)" by auto
  from await_Inv [OF a(1) 2] a(2) 3 show ?thesis by (auto intro: evolves_trans)
qed

lemma Resolve_Inv:
  assumes "Inv s" "p < length (heap s)"
  shows "Resolve p s =
     Ok (if notDone (heap s ! p) then None
         else Some \<lparr>Result = res (heap s ! p), Error = err (heap s ! p)\<rparr>, s)"
  using Resolve_simp [OF assms(2) Inv_promise(2) [OF assms]] .

lemma iter_next_Inv:
  assumes "Inv s" "list_all (\<lambda>p. p < length (heap s)) (promises it)"
    and "iter_next it sched s = Ok (r, it', s')"
  shows "Inv s' \<and> evolves (heap s) (heap s')"
proof (cases "index it = length (promises it)")
  case True
  with assms show ?thesis by (simp add: iter_next_def)
next
  case False
  let ?p = "promises it ! index it"
  from assms(3) False have "Resolve ?p s \<noteq> Panic"
    by (auto simp: iter_next_def)
  then have p: "?p < length (heap s)" by (auto simp: Resolve_def Lock_def split: if_splits)
  note R = Resolve_Inv [OF assms(1) p]
  show ?thesis
  proof (cases "notDone (heap s ! ?p)")
    case nd: False
    with assms(1,3) False R show ?thesis by (auto simp: iter_next_def)
  next
    case nd: True
    let ?k = "length (iters s)"
    let ?s2 = "s\<lparr>iters := iters s @ [\<lparr>iter_val = default, iter_err = None, waitCh = []\<rparr>]\<rparr>"
    from assms(3) False R nd obtain s3 q1 s4 s5 q2 s6 s7 where
      1: "run_sched (fst (next_chunk sched)) ?s2 = Ok s3"
      and 2: "Then ?p (IterThenFn ?k) s3 = Ok (q1, s4)"
      and 3: "run_sched (fst (next_chunk (snd (next_chunk sched)))) s4 = Ok s5"
      and 4: "Catch ?p (IterCatchFn ?k) s5 = Ok (q2, s6)"
      and 5: "await (\<lambda>t. waitCh (iters t ! ?k) \<noteq> []) (concat (snd (next_chunk (snd (next_chunk sched))))) s6 = Ok s7"
      and 6: "s' = s7\<lparr>iters := (iters s7)[?k := (iters s7 ! ?k)\<lparr>waitCh := tl (waitCh (iters s7 ! ?k))\<rparr>]\<rparr>"
      by (auto simp: iter_next_def Let_def obind_Ok_iff)
    have I2: "Inv ?s2" using assms(1) by simp
    from run_sched_Inv [OF I2, of "fst (next_chunk sched)"] 1
    have a: "Inv s3" "evolves (heap s) (heap s3)" by auto
    from p evolves_length [OF a(2)] have p3: "?p < length (heap s3)" by simp
    from Then_Inv [OF a(1) p3, of "IterThenFn ?k"] 2
    have b: "Inv s4" "evolves (heap s3) (heap s4)" by auto
    from run_sched_Inv [OF b(1), of "fst (next_chunk (snd (next_chunk sched)))"] 3
    have c: "Inv s5" "evolves (heap s4) (heap s5)" by auto
    from p3 evolves_length [OF b(2)] evolves_length [OF c(2)] have p5: "?p < length (heap s5)" by simp
    from Catch_Inv [OF c(1) p5, of "IterCatchFn ?k"] 4
    have d: "Inv s6" "evolves (heap s5) (heap s6)" by auto
    from await_Inv [OF d(1) 5] have e: "Inv s7" "evolves (heap s6) (heap s7)" by auto
    have "evolves (heap s) (heap s7)"
      using a(2) b(2) c(2) d(2) e(2) by (blast intro: evolves_trans)
    with e(1) 6 show ?thesis by simp
  qed
qed

text \<open>
  What the callers of the package and the scheduler can do: a step of a goroutine, a
  struct literal with every field zero, and the exported functions. A caller can only
  hand over promises that exist, Go having no dangling pointers. \<open>perform\<close> keeps the
  state and drops the results.
\<close>

datatype ('v, 'u) operation =
    OpStep nat
  | OpZeroValue
  | OpNewFn "'u \<Rightarrow> ('v \<times> goerror) \<times> 'u"
  | OpNewResolved 'v
  | OpNewRejected goerror
  | OpThen pid "'v \<Rightarrow> 'u \<Rightarrow> ('v \<times> goerror) \<times> 'u"
  | OpCatch pid "goerror \<Rightarrow> 'u \<Rightarrow> ('v \<times> goerror) \<times> 'u"
  | OpResolve pid
  | OpAll "pid list" "nat list"
  | OpRace "pid list" "nat list list"
  | OpIterNext iterator "nat list list"

definition exist :: "('v, 'u) state \<Rightarrow> pid list \<Rightarrow> bool" where
  "exist s ps = list_all (\<lambda>p. p < length (heap s)) ps"

fun perform :: "('v::default, 'u) operation \<Rightarrow> ('v, 'u) state \<Rightarrow> ('v, 'u) state outcome" where
  "perform (OpStep i) s = sched_step i s"
| "perform OpZeroValue s = Ok (snd (new_promise zero_promise s))"
| "perform (OpNewFn g) s = Ok (snd (NewFn (UserProducer g) s))"
| "perform (OpNewResolved v) s = Ok (snd (NewResolved v s))"
| "perform (OpNewRejected e) s = Ok (snd (NewRejected e s))"
| "perform (OpThen p g) s = obind (Then p (UserFn g) s) (\<lambda>(q, s'). Ok s')"
| "perform (OpCatch p g) s = obind (Catch p (UserErrFn g) s) (\<lambda>(q, s'). Ok s')"
| "perform (OpResolve p) s = obind (Resolve p s) (\<lambda>(r, s'). Ok s')"
| "perform (OpAll ps sched) s =
     (if exist s ps then obind (All ps sched s) (\<lambda>(r, s'). Ok s') else Panic)"
| "perform (OpRace ps sched) s =
     (if exist s ps then obind (Race ps sched s) (\<lambda>(r, s'). Ok s') else Panic)"
| "perform (OpIterNext it sched) s =
     (if exist s (promises it) then obind (iter_next it sched s) (\<lambda>(r, it', s'). Ok s') else Panic)"

fun perform_all :: "('v::default, 'u) operation list \<Rightarrow> ('v, 'u) state \<Rightarrow> ('v, 'u) state outcome" where
  "perform_all [] s = Ok s"
| "perform_all (x # xs) s = obind (perform x s) (perform_all xs)"

lemma Lock_valid: "Lock p s = Ok s1 \<Longrightarrow> p < length (heap s)"
  by (simp add: Lock_Ok)

lemma Then_valid: "Then p f s = Ok x \<Longrightarrow> p < length (heap s)"
  by (auto simp: Then_def obind_Ok_iff dest: Lock_valid)

lemma Catch_valid: "Catch p f s = Ok x \<Longrightarrow> p < length (heap s)"
  by (auto simp: Catch_def obind_Ok_iff dest: Lock_valid)

lemma Resolve_valid: "Resolve p s = Ok x \<Longrightarrow> p < length (heap s)"
  by (auto simp: Resolve_def obind_Ok_iff dest: Lock_valid)

lemma promise_ok_zero [simp]:
  "promise_ok zero_promise" "promise_ok (zero_promise\<lparr>res := v\<rparr>)" "promise_ok (zero_promise\<lparr>err := e\<rparr>)"
  by (simp_all add: promise_ok_def then_targets_def promise_targets_def handlers_in_def)

lemma promise_targets_zero [simp]:
  "promise_targets zero_promise = []" "promise_targets (zero_promise\<lparr>res := v\<rparr>) = []"
  "promise_targets (zero_promise\<lparr>err := e\<rparr>) = []"
  by (simp_all add: promise_targets_def handlers_in_def)

lemma new_settled_Inv:
  assumes "Inv s" "promise_ok X" "\<not> doneMu X" "promise_targets X = []"
  shows "Inv (snd (new_promise X s)) \<and> evolves (heap s) (heap (snd (new_promise X s)))"
  using inv_append_promise [of "pool s" "heap s" X] assms
  by (simp add: Inv_def new_promise_def evolves_def nth_append)

lemma perform_Inv:
  assumes I: "Inv s" and p: "perform x s = Ok s'"
  shows "Inv s' \<and> evolves (heap s) (heap s')"
proof (cases x)
  case (OpStep i)
  with sched_step_Inv [OF I, of i] p show ?thesis by auto
next
  case OpZeroValue
  with new_settled_Inv [OF I, of zero_promise] p show ?thesis by auto
next
  case (OpNewFn g)
  with NewFn_Inv [OF I, of "UserProducer g"] p show ?thesis by auto
next
  case (OpNewResolved v)
  with new_settled_Inv [OF I, of "zero_promise\<lparr>res := v\<rparr>"] p show ?thesis
    by (auto simp: NewResolved_def)
next
  case (OpNewRejected e)
  with new_settled_Inv [OF I, of "zero_promise\<lparr>err := e\<rparr>"] p show ?thesis
    by (auto simp: NewRejected_def)
next
  case (OpThen q g)
  with p obtain n where t: "Then q (UserFn g) s = Ok (n, s')" by (auto simp: obind_Ok_iff)
  from Then_Inv [OF I Then_valid [OF t], of "UserFn g"] t show ?thesis by auto
next
  case (OpCatch q g)
  with p obtain n where t: "Catch q (UserErrFn g) s = Ok (n, s')" by (auto simp: obind_Ok_iff)
  from Catch_Inv [OF I Catch_valid [OF t], of "UserErrFn g"] t show ?thesis by auto
next
  case (OpResolve q)
  with p obtain r where t: "Resolve q s = Ok (r, s')" by (auto simp: obind_Ok_iff)
  from Resolve_Inv [OF I Resolve_valid [OF t]] t I show ?thesis by auto
next
  case (OpAll ps sched)
  with p obtain r where "exist s ps" "All ps sched s = Ok (r, s')"
    by (auto simp: obind_Ok_iff split: if_splits)
  with All_Inv [OF I] show ?thesis by (auto simp: exist_def)
next
  case (OpRace ps sched)
  with p obtain r where "exist s ps" "Race ps sched s = Ok (r, s')"
    by (auto simp: obind_Ok_iff split: if_splits)
  with Race_Inv [OF I] show ?thesis by (auto simp: exist_def)
next
  case (OpIterNext it sched)
  with p obtain r it' where "exist s (promises it)" "iter_next it sched s = Ok (r, it', s')"
    by (auto simp: obind_Ok_iff split: if_splits)
  with iter_next_Inv [OF I] show ?thesis by (auto simp: exist_def)
qed

lemma perform_all_Inv:
  "Inv s \<Longrightarrow> perform_all xs s = Ok s' \<Longrightarrow> Inv s' \<and> evolves (heap s) (heap s')"
proof (induction xs arbitrary: s)
  case Nil
  then show ?case by simp
next
  case (Cons x xs)
  from Cons.prems(2) obtain s1 where 1: "perform x s = Ok s1" and 2: "perform_all xs s1 = Ok s'"
    by (auto simp: obind_Ok_iff)
  from perform_Inv [OF Cons.prems(1) 1] Cons.IH [OF _ 2] show ?case
    by (auto intro: evolves_trans)
qed

lemma Inv_init: "Inv (init_state w)"
  by (simp add: Inv_def inv_def init_state_def targets_ok_def targets_def locks_ok_def)

lemma reachable_Inv: "perform_all xs (init_state w) = Ok s \<Longrightarrow> Inv s"
  using perform_all_Inv [OF Inv_init, of xs w s] by simp

section \<open>Settlement happens once\<close>

text \<open>
  Claim C3. In a state that the operations of the package can reach, let \<^verbatim>\<open>Resolve\<close>
  return a non-nil resolution for a promise. Whatever is done afterwards, by the callers
  or by the goroutines, \<^verbatim>\<open>Resolve\<close> returns the same result and the same error: the
  promise is never pending again and is never settled a second time.
\<close>

theorem settle_once:
  assumes "perform_all before (init_state w) = Ok s"
    and "Resolve p s = Ok (Some rs, t)"
    and "perform_all after s = Ok s'"
  shows "Resolve p s' = Ok (Some rs, s')"
proof -
  from reachable_Inv [OF assms(1)] have I: "Inv s" .
  from Resolve_valid [OF assms(2)] have p: "p < length (heap s)" .
  from Resolve_Inv [OF I p] assms(2)
  have d: "\<not> notDone (heap s ! p)" and rs: "rs = \<lparr>Result = res (heap s ! p), Error = err (heap s ! p)\<rparr>"
    by (auto split: if_splits)
  from perform_all_Inv [OF I assms(3)] have I': "Inv s'" and e: "evolves (heap s) (heap s')" by auto
  from e p d have "p < length (heap s')" "\<not> notDone (heap s' ! p)" "res (heap s' ! p) = res (heap s ! p)"
    "err (heap s' ! p) = err (heap s ! p)" by (auto simp: evolves_def)
  with Resolve_Inv [OF I', of p] rs show ?thesis by simp
qed

definition settle_once_mid :: "(int, nat) state" where
  "settle_once_mid =
     \<lparr>heap = [fresh_promise\<lparr>notDone := False, err := None, res := 5, thenList := None,
                             errorList := None\<rparr>],
      pool = [GoPass 0 5 None (Some []) (Some [])], world = 0, alls = [], errChans = [],
      races = [], iters = [], invoked = []\<rparr>"

definition settle_once_end :: "(int, nat) state" where
  "settle_once_end =
     \<lparr>heap = [fresh_promise\<lparr>notDone := False, err := None, res := 5, thenList := None,
                             errorList := None, doneMu := False\<rparr>,
              zero_promise\<lparr>res := 7\<rparr>],
      pool = [GoDone], world = 0, alls = [], errChans = [], races = [], iters = [],
      invoked = []\<rparr>"

theorem settle_once_witness:
  "perform_all [OpNewFn (\<lambda>w. ((5, None), w)), OpStep 0] (init_state 0) = Ok settle_once_mid \<and>
   Resolve 0 settle_once_mid = Ok (Some \<lparr>Result = 5, Error = None\<rparr>, settle_once_mid) \<and>
   perform_all [OpStep 0, OpNewResolved 7] settle_once_mid = Ok settle_once_end \<and>
   Resolve 0 settle_once_end = Ok (Some \<lparr>Result = 5, Error = None\<rparr>, settle_once_end)"
proof -
  have a: "perform_all [OpNewFn (\<lambda>w. ((5, None), w)), OpStep 0] (init_state 0) = Ok settle_once_mid"
    by (simp add: NewFn_simp init_state_def sched_step_def call_settle_simp2 settle_once_mid_def)
  have b: "Resolve 0 settle_once_mid = Ok (Some \<lparr>Result = 5, Error = None\<rparr>, settle_once_mid)"
    by (simp add: Resolve_simp settle_once_mid_def)
  have c: "perform_all [OpStep 0, OpNewResolved 7] settle_once_mid = Ok settle_once_end"
    by (simp add: sched_step_def call_pass_def pass_begin_def LockDone_def handlers_work_def
        UnlockDone_def NewResolved_def new_promise_def settle_once_mid_def settle_once_end_def)
  from settle_once [OF a b c] a b c show ?thesis by simp
qed

section \<open>Where derived promises come from\<close>

datatype ('v, 'u) origin = FromThen pid "('v, 'u) fnT" | FromCatch pid "('v, 'u) fnE"

definition settled_as :: "('v, 'u) promise list \<Rightarrow> pid \<Rightarrow> 'v \<Rightarrow> goerror \<Rightarrow> bool" where
  "settled_as h x r e \<longleftrightarrow> x < length h \<and> \<not> notDone (h ! x) \<and> res (h ! x) = r \<and> err (h ! x) = e"

definition failed_as :: "('v, 'u) promise list \<Rightarrow> pid \<Rightarrow> goerror \<Rightarrow> bool" where
  "failed_as h x e \<longleftrightarrow> x < length h \<and> \<not> notDone (h ! x) \<and> err (h ! x) = e \<and> e \<noteq> None"

fun then_hn_ok :: "(pid \<Rightarrow> ('v, 'u) origin option) \<Rightarrow> pid \<Rightarrow> ('v, 'u) thenhandler \<Rightarrow> bool" where
  "then_hn_ok og x (ThenHn q f) = (og q = Some (FromThen x f))"
| "then_hn_ok og x (RawThenHn g) = True"

fun err_hn_ok :: "(pid \<Rightarrow> ('v, 'u) origin option) \<Rightarrow> pid \<Rightarrow> ('v, 'u) errhandler \<Rightarrow> bool" where
  "err_hn_ok og x (ThenCatchHn q) = (\<exists>f. og q = Some (FromThen x f))"
| "err_hn_ok og x (CatchHn q f) = (og q = Some (FromCatch x f))"
| "err_hn_ok og x (RawErrHn g) = True"

definition promise_prov ::
  "(pid \<Rightarrow> ('v, 'u) origin option) \<Rightarrow> pid \<Rightarrow> ('v, 'u) promise \<Rightarrow> bool" where
  "promise_prov og x pr \<longleftrightarrow>
     (\<forall>hn \<in> set (handlers_in (thenList pr)). then_hn_ok og x hn) \<and>
     (\<forall>hn \<in> set (handlers_in (errorList pr)). err_hn_ok og x hn) \<and>
     (\<forall>q. ThenCatchHn q \<in> set (handlers_in (errorList pr)) \<longrightarrow> q \<in> set (then_targets pr)) \<and>
     (\<not> notDone pr \<longrightarrow> promise_targets pr = [])"

fun prod_prov ::
  "(pid \<Rightarrow> ('v, 'u) origin option) \<Rightarrow> ('v, 'u) promise list \<Rightarrow> pid \<Rightarrow> ('v, 'u) producer \<Rightarrow> bool" where
  "prod_prov og h t (UserProducer g) = (og t = None)"
| "prod_prov og h t (ThenHnBody f v) = (\<exists>x. og t = Some (FromThen x f) \<and> settled_as h x v None)"
| "prod_prov og h t (ThenCatchHnBody e) = (\<exists>x f. og t = Some (FromThen x f) \<and> failed_as h x e)"
| "prod_prov og h t (CatchHnBody f e) = (\<exists>x. og t = Some (FromCatch x f) \<and> failed_as h x e)"
| "prod_prov og h t (ThenDoneBody x e v f) = (og t = Some (FromThen x f) \<and> settled_as h x v e)"
| "prod_prov og h t (CatchDoneBody x e f) = (og t = Some (FromCatch x f) \<and> failed_as h x e)"

fun work_prov ::
  "(pid \<Rightarrow> ('v, 'u) origin option) \<Rightarrow> ('v, 'u) promise list \<Rightarrow> ('v, 'u) work \<Rightarrow> bool" where
  "work_prov og h (WThen hn v) = (\<exists>x. then_hn_ok og x hn \<and> settled_as h x v None)"
| "work_prov og h (WErr hn e) = (\<exists>x. err_hn_ok og x hn \<and> failed_as h x e)"
| "work_prov og h (WUnlockDone p) = True"

fun go_prov ::
  "(pid \<Rightarrow> ('v, 'u) origin option) \<Rightarrow> ('v, 'u) promise list \<Rightarrow> ('v, 'u) goroutine \<Rightarrow> bool" where
  "go_prov og h (GoCall q f) = (q < length h \<and> prod_prov og h q f)"
| "go_prov og h (GoPass x r e thl erl) =
     (settled_as h x r e \<and>
      (if e \<noteq> None then \<forall>hn \<in> set (handlers_in erl). err_hn_ok og x hn
       else \<forall>hn \<in> set (handlers_in thl). then_hn_ok og x hn))"
| "go_prov og h g = True"

fun entry_prov ::
  "(pid \<Rightarrow> ('v, 'u) origin option) \<Rightarrow> ('v, 'u) promise list \<Rightarrow> ('v, 'u) invocation \<Rightarrow> bool" where
  "entry_prov og h (CalledThen q f v) = (\<exists>x. og q = Some (FromThen x f) \<and> settled_as h x v None)"
| "entry_prov og h (CalledCatch q f e) = (\<exists>x. og q = Some (FromCatch x f) \<and> failed_as h x e)"

definition result_prov ::
  "(pid \<Rightarrow> ('v, 'u) origin option) \<Rightarrow> ('v::default, 'u) promise list \<Rightarrow> bool" where
  "result_prov og h \<longleftrightarrow>
     (\<forall>q x f. og q = Some (FromThen x f) \<longrightarrow> \<not> notDone (h ! q) \<longrightarrow>
        x < length h \<and> \<not> notDone (h ! x) \<and>
        (err (h ! x) \<noteq> None \<longrightarrow> res (h ! q) = default \<and> err (h ! q) = err (h ! x)))"

definition live_prov ::
  "(pid \<Rightarrow> ('v, 'u) origin option) \<Rightarrow> ('v, 'u) work list \<Rightarrow> ('v, 'u) goroutine list \<Rightarrow>
   ('v, 'u) promise list \<Rightarrow> bool" where
  "live_prov og ws P h \<longleftrightarrow>
     (\<forall>q x f. og q = Some (FromThen x f) \<longrightarrow> notDone (h ! q) \<longrightarrow> q \<in> set (targets ws P h))"

definition prov ::
  "(pid \<Rightarrow> ('v, 'u) origin option) \<Rightarrow> ('v::default, 'u) work list \<Rightarrow> ('v, 'u) goroutine list \<Rightarrow>
   ('v, 'u) promise list \<Rightarrow> ('v, 'u) invocation list \<Rightarrow> bool" where
  "prov og ws P h L \<longleftrightarrow>
     (\<forall>x < length h. promise_prov og x (h ! x)) \<and>
     list_all (work_prov og h) ws \<and>
     list_all (go_prov og h) P \<and>
     list_all (entry_prov og h) L \<and>
     result_prov og h \<and>
     live_prov og ws P h \<and>
     (\<forall>q. og q \<noteq> None \<longrightarrow> q < length h)"

lemma settled_as_evolves: "settled_as h x r e \<Longrightarrow> evolves h h' \<Longrightarrow> settled_as h' x r e"
  by (auto simp: settled_as_def evolves_def)

lemma failed_as_evolves: "failed_as h x e \<Longrightarrow> evolves h h' \<Longrightarrow> failed_as h' x e"
  by (auto simp: failed_as_def evolves_def)

lemma prod_prov_evolves: "prod_prov og h t f \<Longrightarrow> evolves h h' \<Longrightarrow> prod_prov og h' t f"
  by (cases f) (auto intro: settled_as_evolves failed_as_evolves)

lemma work_prov_evolves: "work_prov og h w \<Longrightarrow> evolves h h' \<Longrightarrow> work_prov og h' w"
  by (cases w) (auto intro: settled_as_evolves failed_as_evolves)

lemma go_prov_evolves: "go_prov og h g \<Longrightarrow> evolves h h' \<Longrightarrow> go_prov og h' g"
  by (cases g) (auto intro: settled_as_evolves prod_prov_evolves simp: evolves_def)

lemma entry_prov_evolves: "entry_prov og h x \<Longrightarrow> evolves h h' \<Longrightarrow> entry_prov og h' x"
  by (cases x) (auto intro: settled_as_evolves failed_as_evolves)

text \<open>A work item that settles \<open>t\<close> runs a producing function that fits the origin of \<open>t\<close>.\<close>

lemma work_prov_producer:
  "work_prov og h w \<Longrightarrow> work_targets w = [t] \<Longrightarrow> prod_prov og h t (work_producer w)"
proof (cases w)
  case (WThen hn v)
  assume "work_prov og h w" "work_targets w = [t]"
  with WThen show ?thesis by (cases hn) auto
next
  case (WErr hn e)
  assume "work_prov og h w" "work_targets w = [t]"
  with WErr show ?thesis by (cases hn) auto
qed simp

fun logged :: "pid \<Rightarrow> ('v, 'u) producer \<Rightarrow> ('v, 'u) invocation list" where
  "logged t (ThenHnBody f v) = [CalledThen t f v]"
| "logged t (CatchHnBody f e) = [CalledCatch t f e]"
| "logged t (ThenDoneBody x e v f) = (if e \<noteq> None then [] else [CalledThen t f v])"
| "logged t (CatchDoneBody x e f) = [CalledCatch t f e]"
| "logged t f = []"

lemma apply_fnT_invoked': "apply_fnT f v s = (re, s1) \<Longrightarrow> invoked s1 = invoked s"
  using apply_fnT_UserFn_fields(2) [of f v s] by simp

lemma apply_fnE_invoked': "apply_fnE f v s = (re, s1) \<Longrightarrow> invoked s1 = invoked s"
  using apply_fnE_fields(2) [of f v s] by simp

lemma eval_producer_invoked:
  "eval_producer t f0 s = Ok (re, s1) \<Longrightarrow> invoked s1 = invoked s @ logged t f0"
  by (cases f0)
    (auto simp: note_invoked_def obind_Ok_iff LockDone_Ok UnlockDone_def
      dest!: apply_fnT_invoked' apply_fnE_invoked' split: if_splits)

lemma eval_producer_failure:
  "eval_producer t f0 s = Ok ((r, e), s1) \<Longrightarrow>
     (f0 = ThenCatchHnBody e' \<longrightarrow> r = default \<and> e = e') \<and>
     (f0 = ThenDoneBody x e' v f \<longrightarrow> e' \<noteq> None \<longrightarrow> r = default \<and> e = e')"
  by (auto simp: obind_Ok_iff)

text \<open>
  What the producing function of a derived promise may do: it invokes the function of the
  origin on the result of the source, or hands on the failure of the source.
\<close>

lemma eval_producer_prov:
  assumes pp: "prod_prov og h t f0" and ev: "eval_producer t f0 s = Ok ((r, e), s1)"
    and L: "list_all (entry_prov og h) (invoked s)"
  shows "list_all (entry_prov og h) (invoked s1) \<and>
         (\<forall>x f. og t = Some (FromThen x f) \<longrightarrow>
            x < length h \<and> \<not> notDone (h ! x) \<and>
            (err (h ! x) \<noteq> None \<longrightarrow> r = default \<and> e = err (h ! x)))"
proof -
  have "list_all (entry_prov og h) (logged t f0)"
    using pp by (cases f0) auto
  with L eval_producer_invoked [OF ev] have 1: "list_all (entry_prov og h) (invoked s1)" by simp
  have 2: "x < length h \<and> \<not> notDone (h ! x) \<and> (err (h ! x) \<noteq> None \<longrightarrow> r = default \<and> e = err (h ! x))"
    if "og t = Some (FromThen x f)" for x f
    using pp that eval_producer_failure [OF ev]
    by (cases f0) (auto simp: settled_as_def failed_as_def)
  from 1 2 show ?thesis by blast
qed

lemma heap_targets_settle:
  assumes "t < length h" "promise_targets X = []"
  shows "set (concat (map promise_targets h)) =
         set (concat (map promise_targets (h[t := X]))) \<union> set (promise_targets (h ! t))"
proof -
  from mset_concat_map_update [OF assms(1), of promise_targets X] assms(2)
  have "mset (concat (map promise_targets (h[t := X]))) + mset (promise_targets (h ! t)) =
        mset (concat (map promise_targets h))" by simp
  from arg_cong [OF this, of set_mset] show ?thesis by simp
qed

lemma err_target_cases:
  "q \<in> set (err_target hn) \<Longrightarrow> hn = ThenCatchHn q \<or> (\<exists>f. hn = CatchHn q f)"
  by (cases hn) auto

lemma live_handlers:
  assumes pp: "promise_prov og t pr" and o: "og q = Some (FromThen x f)"
    and q: "q \<in> set (promise_targets pr)"
  shows "q \<in> set (then_targets pr)"
proof -
  from q obtain hn where hn: "hn \<in> set (handlers_in (errorList pr))" "q \<in> set (err_target hn)"
    by (auto simp: promise_targets_def)
  from pp hn(1) have ok: "err_hn_ok og t hn" by (simp add: promise_prov_def)
  from err_target_cases [OF hn(2)] ok o have "hn = ThenCatchHn q" by auto
  with pp hn(1) show ?thesis by (simp add: promise_prov_def)
qed

lemma settled_targets:
  assumes "\<not> notDone X" "thenList X = None" "errorList X = None"
  shows "promise_targets X = []" "then_targets X = []" "promise_prov og x X"
  using assms by (simp_all add: promise_targets_def then_targets_def handlers_in_def promise_prov_def)

lemma heap_prov_settle:
  assumes pp: "\<forall>x < length h. promise_prov og x (h ! x)"
    and rp: "result_prov og h"
    and t: "t < length h" "notDone (h ! t)"
    and X: "\<not> notDone X" "res X = r" "err X = e" "thenList X = None" "errorList X = None"
    and ro: "\<forall>x f. og t = Some (FromThen x f) \<longrightarrow>
               x < length h \<and> \<not> notDone (h ! x) \<and>
               (err (h ! x) \<noteq> None \<longrightarrow> r = default \<and> e = err (h ! x))"
  shows "\<forall>x < length (h[t := X]). promise_prov og x (h[t := X] ! x)"
    and "result_prov og (h[t := X])"
proof -
  show "\<forall>x < length (h[t := X]). promise_prov og x (h[t := X] ! x)"
    using pp settled_targets(3) [OF X(1,4,5)] by (auto simp: nth_update_if)
  show "result_prov og (h[t := X])"
    unfolding result_prov_def
  proof (intro allI impI)
    fix q x f
    assume o: "og q = Some (FromThen x f)" and d: "\<not> notDone (h[t := X] ! q)"
    show "x < length (h[t := X]) \<and> \<not> notDone (h[t := X] ! x) \<and>
          (err (h[t := X] ! x) \<noteq> None \<longrightarrow>
             res (h[t := X] ! q) = default \<and> err (h[t := X] ! q) = err (h[t := X] ! x))"
    proof (cases "q = t")
      case True
      with ro o have x: "x < length h" "\<not> notDone (h ! x)"
        "err (h ! x) \<noteq> None \<longrightarrow> r = default \<and> e = err (h ! x)" by auto
      with t have "x \<noteq> t" by auto
      with x True t X show ?thesis by (simp add: nth_list_update)
    next
      case False
      with d have "\<not> notDone (h ! q)" by (simp add: nth_update_if)
      with rp o have x: "x < length h" "\<not> notDone (h ! x)"
        "err (h ! x) \<noteq> None \<longrightarrow> res (h ! q) = default \<and> err (h ! q) = err (h ! x)"
        unfolding result_prov_def by blast+
      with t have "x \<noteq> t" by auto
      with x False show ?thesis by (simp add: nth_list_update)
    qed
  qed
qed

text \<open>A promise made by \<^verbatim>\<open>Then\<close> that is pending stays a target when another one is settled.\<close>

lemma live_settle:
  assumes old: "q \<in> set (ws0 @ G0 @ concat (map promise_targets h))"
    and o: "og q = Some (FromThen x f)"
    and pp: "promise_prov og t (h ! t)"
    and t: "t < length h"
    and X: "promise_targets X = []"
    and C: "C = (if e \<noteq> None then promise_targets (h ! t) else then_targets (h ! t))"
  shows "q \<in> set (C @ ws0 @ G0 @ concat (map promise_targets (h[t := X])))"
proof -
  from old heap_targets_settle [OF t X]
  consider "q \<in> set ws0 \<union> set G0 \<union> set (concat (map promise_targets (h[t := X])))"
    | "q \<in> set (promise_targets (h ! t))" by auto
  then show ?thesis
  proof cases
    case 1
    then show ?thesis by auto
  next
    case 2
    with live_handlers [OF pp o] C show ?thesis by auto
  qed
qed

lemma handlers_work_prov:
  assumes hw: "handlers_work r e (thenList pr) (errorList pr) = Some hw"
    and pp: "promise_prov og t pr" and st: "settled_as h' t r e"
  shows "list_all (work_prov og h') hw"
proof (cases "e = None")
  case True
  with hw obtain thl where "thenList pr = Some thl" "hw = map (\<lambda>hn. WThen hn r) thl"
    by (auto simp: handlers_work_def)
  with pp st True show ?thesis
    by (auto simp: list_all_iff promise_prov_def handlers_in_def)
next
  case False
  with hw obtain erl where "errorList pr = Some erl" "hw = map (\<lambda>hn. WErr hn e) erl"
    by (auto simp: handlers_work_def)
  with pp st False show ?thesis
    by (auto simp: list_all_iff promise_prov_def handlers_in_def failed_as_def settled_as_def)
qed

lemma prov_skip:
  assumes "prov og (w # ws) P h L" "work_targets w = []"
  shows "prov og ws P h L"
  using assms by (simp add: prov_def live_prov_def targets_def)

lemma prov_doneMu:
  assumes p: "prov og ws P h L"
  shows "prov og ws P (h[p := (h ! p)\<lparr>doneMu := b\<rparr>]) L"
proof -
  let ?h = "h[p := (h ! p)\<lparr>doneMu := b\<rparr>]"
  have ev: "evolves h ?h" by (rule evolves_update_same) simp_all
  have f: "notDone (?h ! x) = notDone (h ! x)" "res (?h ! x) = res (h ! x)" "err (?h ! x) = err (h ! x)"
    "thenList (?h ! x) = thenList (h ! x)" "errorList (?h ! x) = errorList (h ! x)" for x
    by (simp_all add: nth_update_if)
  have m: "map promise_targets ?h = map promise_targets h"
    by (rule map_update_same) (simp add: promise_targets_def)
  have 1: "\<forall>x < length ?h. promise_prov og x (?h ! x)"
    using p by (simp add: prov_def promise_prov_def f then_targets_def promise_targets_def)
  have 2: "list_all (work_prov og ?h) ws"
    using p by (auto simp: prov_def list_all_iff intro: work_prov_evolves [OF _ ev])
  have 3: "list_all (go_prov og ?h) P"
    using p by (auto simp: prov_def list_all_iff intro: go_prov_evolves [OF _ ev])
  have 4: "list_all (entry_prov og ?h) L"
    using p by (auto simp: prov_def list_all_iff intro: entry_prov_evolves [OF _ ev])
  have 5: "result_prov og ?h"
    using p by (simp add: prov_def result_prov_def f)
  have 6: "live_prov og ws P ?h"
    using p by (simp add: prov_def live_prov_def f targets_def m)
  from 1 2 3 4 5 6 p show ?thesis by (simp add: prov_def)
qed

lemma prov_settle_in_pass:
  assumes p: "prov og (w # ws) P (heap s) (invoked s)"
    and t: "work_targets w = [t]" "t < length (heap s)" "notDone (heap s ! t)"
    and ev: "eval_producer t (work_producer w) s = Ok ((r, e), s1)"
    and hw: "handlers_work r e (thenList (heap s ! t)) (errorList (heap s ! t)) = Some hw"
    and X: "\<not> notDone X" "res X = r" "err X = e" "thenList X = None" "errorList X = None"
  shows "prov og ((hw @ [WUnlockDone t]) @ ws) P ((heap s)[t := X]) (invoked s1)"
proof -
  let ?h = "heap s" and ?h' = "(heap s)[t := X]"
  from p have pp: "\<forall>x < length ?h. promise_prov og x (?h ! x)"
    and wp: "work_prov og ?h w" "list_all (work_prov og ?h) ws"
    and gp: "list_all (go_prov og ?h) P"
    and lp: "list_all (entry_prov og ?h) (invoked s)"
    and rp: "result_prov og ?h" and lv: "live_prov og (w # ws) P ?h"
    and dm: "\<forall>q. og q \<noteq> None \<longrightarrow> q < length ?h"
    by (simp_all add: prov_def)
  have evo: "evolves ?h ?h'" using t(3) by (rule evolves_update_pending)
  from eval_producer_prov [OF work_prov_producer [OF wp(1) t(1)] ev lp]
  have lp1: "list_all (entry_prov og ?h) (invoked s1)"
    and ro: "\<forall>x f. og t = Some (FromThen x f) \<longrightarrow>
               x < length ?h \<and> \<not> notDone (?h ! x) \<and>
               (err (?h ! x) \<noteq> None \<longrightarrow> r = default \<and> e = err (?h ! x))"
    by blast+
  note hp = heap_prov_settle [OF pp rp t(2,3) X ro]
  have st: "settled_as ?h' t r e" using t(2) X by (simp add: settled_as_def)
  from pp t(2) have ppt: "promise_prov og t (?h ! t)" by simp
  have 2: "list_all (work_prov og ?h') ((hw @ [WUnlockDone t]) @ ws)"
    using handlers_work_prov [OF hw ppt st] wp(2)
    by (auto simp: list_all_iff intro: work_prov_evolves [OF _ evo])
  have 3: "list_all (go_prov og ?h') P"
    using gp by (auto simp: list_all_iff intro: go_prov_evolves [OF _ evo])
  have 4: "list_all (entry_prov og ?h') (invoked s1)"
    using lp1 by (auto simp: list_all_iff intro: entry_prov_evolves [OF _ evo])
  have C: "concat (map work_targets hw) =
           (if e \<noteq> None then promise_targets (?h ! t) else then_targets (?h ! t))"
    using handlers_work_targets [OF hw] by (simp add: promise_targets_def then_targets_def)
  have 6: "live_prov og ((hw @ [WUnlockDone t]) @ ws) P ?h'"
    unfolding live_prov_def
  proof (intro allI impI)
    fix q x f
    assume o: "og q = Some (FromThen x f)" and nd: "notDone (?h' ! q)"
    from nd t(2) X(1) have qt: "q \<noteq> t" by auto
    with nd have "notDone (?h ! q)" by simp
    with lv o have "q \<in> set (targets (w # ws) P ?h)" unfolding live_prov_def by blast
    with qt t(1) have "q \<in> set (concat (map work_targets ws) @ concat (map go_targets P) @
                            concat (map promise_targets ?h))"
      by (simp add: targets_def)
    from live_settle [OF this o ppt t(2) settled_targets(1) [OF X(1,4,5)] C]
    show "q \<in> set (targets ((hw @ [WUnlockDone t]) @ ws) P ?h')"
      by (simp add: targets_def)
  qed
  from hp 2 3 4 6 dm show ?thesis by (simp add: prov_def)
qed

lemma prov_exec_item:
  assumes p: "prov og (w # ws) P (heap s) (invoked s)" and i: "inv (w # ws) P (heap s)"
    and ex: "exec_item w s = Ok (ws', s')"
  shows "prov og (ws' @ ws) P (heap s') (invoked s')"
proof -
  consider "work_targets w = []" | t where "work_targets w = [t]"
    using work_targets_cases [of w] by blast
  then show ?thesis
  proof cases
    case 1
    from prov_skip [OF p 1] have p1: "prov og ws P (heap s) (invoked s)" .
    show ?thesis
    proof (cases w)
      case (WUnlockDone x)
      with exec_item_no_target [OF ex 1] prov_doneMu [OF p1, of x False] show ?thesis
        by (simp add: UnlockDone_def)
    next
      case (WThen hn v)
      with exec_item_no_target [OF ex 1] p1 show ?thesis by auto
    next
      case (WErr hn e)
      with exec_item_no_target [OF ex 1] p1 show ?thesis by auto
    qed
  next
    case 2
    from exec_item_handler [OF ex 2] obtain r e s1 hw where
      ev: "eval_producer t (work_producer w) s = Ok ((r, e), s1)" and t: "t < length (heap s)"
      and hw: "handlers_work r e (thenList (heap s ! t)) (errorList (heap s ! t)) = Some hw"
      and ws': "ws' = hw @ [WUnlockDone t]"
      and s': "s' = s1\<lparr>heap := (heap s)[t := (heap s ! t)
                  \<lparr>notDone := False, err := e, res := r, thenList := None, errorList := None,
                   doneMu := True\<rparr>]\<rparr>"
      by blast
    from inv_target_facts [OF i 2] have nd: "notDone (heap s ! t)" by simp
    from prov_settle_in_pass [OF p 2 t nd ev hw, of "(heap s ! t)
                  \<lparr>notDone := False, err := e, res := r, thenList := None, errorList := None,
                   doneMu := True\<rparr>"] ws' s'
    show ?thesis by simp
  qed
qed

lemma prov_run:
  "prov og ws P (heap s) (invoked s) \<Longrightarrow> inv ws P (heap s) \<Longrightarrow> run ws s = Ok s' \<Longrightarrow>
   prov og [] P (heap s') (invoked s')"
proof (induction ws s rule: run.induct)
  case (1 s)
  then show ?case by simp
next
  case (2 w ws s)
  from "2.prems"(3) obtain ws1 s1 where ex: "exec_item w s = Ok (ws1, s1)"
    and r: "run (ws1 @ ws) s1 = Ok s'"
    by (auto split: outcome.splits)
  from prov_exec_item [OF "2.prems"(1,2) ex] inv_exec_item [OF "2.prems"(2) ex]
    "2.IH" [OF ex refl _ _ r]
  show ?case by blast
qed

lemma handlers_work_prov':
  assumes hw: "handlers_work r e thl erl = Some hw"
    and st: "settled_as h' t r e"
    and ok: "if e \<noteq> None then \<forall>hn \<in> set (handlers_in erl). err_hn_ok og t hn
             else \<forall>hn \<in> set (handlers_in thl). then_hn_ok og t hn"
  shows "list_all (work_prov og h') hw"
proof (cases "e = None")
  case True
  with hw obtain l where "thl = Some l" "hw = map (\<lambda>hn. WThen hn r) l"
    by (auto simp: handlers_work_def)
  with ok st True show ?thesis
    by (auto simp: list_all_iff handlers_in_def)
next
  case False
  with hw obtain l where "erl = Some l" "hw = map (\<lambda>hn. WErr hn e) l"
    by (auto simp: handlers_work_def)
  with ok st False show ?thesis
    by (auto simp: list_all_iff handlers_in_def failed_as_def settled_as_def)
qed

lemma set_go_targets_split:
  assumes "i < length P"
  shows "set (concat (map go_targets P)) =
         set (go_targets (P ! i)) \<union> set (concat (map go_targets (P[i := GoDone])))"
  using arg_cong [OF go_targets_split [OF assms], of set_mset] by simp

lemma set_go_targets_update:
  assumes "i < length P"
  shows "set (concat (map go_targets (P[i := g]))) =
         set (go_targets g) \<union> set (concat (map go_targets (P[i := GoDone])))"
  using set_go_targets_split [of i "P[i := g]"] assms by simp

lemma prov_settle_goroutine:
  assumes p: "prov og [] P (heap s) (invoked s)"
    and i: "i < length P" "P ! i = GoCall t f0"
    and t: "t < length (heap s)" "notDone (heap s ! t)"
    and ev: "eval_producer t f0 s = Ok ((r, e), s1)"
    and X: "\<not> notDone X" "res X = r" "err X = e" "thenList X = None" "errorList X = None"
  shows "prov og [] (P[i := GoPass t r e (thenList (heap s ! t)) (errorList (heap s ! t))])
           ((heap s)[t := X]) (invoked s1)"
proof -
  let ?h = "heap s" and ?h' = "(heap s)[t := X]"
  let ?g = "GoPass t r e (thenList (heap s ! t)) (errorList (heap s ! t))"
  from p have pp: "\<forall>x < length ?h. promise_prov og x (?h ! x)"
    and gp: "list_all (go_prov og ?h) P"
    and lp: "list_all (entry_prov og ?h) (invoked s)"
    and rp: "result_prov og ?h" and lv: "live_prov og [] P ?h"
    and dm: "\<forall>q. og q \<noteq> None \<longrightarrow> q < length ?h"
    by (simp_all add: prov_def)
  have evo: "evolves ?h ?h'" using t(2) by (rule evolves_update_pending)
  from gp i have "go_prov og ?h (GoCall t f0)"
    by (metis list_all_length)
  then have "prod_prov og ?h t f0" by simp
  from eval_producer_prov [OF this ev lp]
  have lp1: "list_all (entry_prov og ?h) (invoked s1)"
    and ro: "\<forall>x f. og t = Some (FromThen x f) \<longrightarrow>
               x < length ?h \<and> \<not> notDone (?h ! x) \<and>
               (err (?h ! x) \<noteq> None \<longrightarrow> r = default \<and> e = err (?h ! x))"
    by blast+
  note hp = heap_prov_settle [OF pp rp t X ro]
  have st: "settled_as ?h' t r e" using t(1) X by (simp add: settled_as_def)
  from pp t(1) have ppt: "promise_prov og t (?h ! t)" by simp
  have "go_prov og ?h' ?g"
    using st ppt by (simp add: promise_prov_def)
  moreover have "list_all (go_prov og ?h') P"
    using gp by (auto simp: list_all_iff intro: go_prov_evolves [OF _ evo])
  ultimately have 3: "list_all (go_prov og ?h') (P[i := ?g])"
    by (rule list_all_update [rotated])
  have 4: "list_all (entry_prov og ?h') (invoked s1)"
    using lp1 by (auto simp: list_all_iff intro: entry_prov_evolves [OF _ evo])
  have C: "go_targets ?g = (if e \<noteq> None then promise_targets (?h ! t) else then_targets (?h ! t))"
    by (simp add: promise_targets_def then_targets_def)
  have 6: "live_prov og [] (P[i := ?g]) ?h'"
    unfolding live_prov_def
  proof (intro allI impI)
    fix q x f
    assume o: "og q = Some (FromThen x f)" and nd: "notDone (?h' ! q)"
    from nd t(1) X(1) have qt: "q \<noteq> t" by auto
    with nd have "notDone (?h ! q)" by simp
    with lv o have "q \<in> set (targets [] P ?h)" unfolding live_prov_def by blast
    with qt i set_go_targets_split [OF i(1)]
    have "q \<in> set ([] @ concat (map go_targets (P[i := GoDone])) @ concat (map promise_targets ?h))"
      by (auto simp: targets_def)
    from live_settle [OF this o ppt t(1) settled_targets(1) [OF X(1,4,5)] C]
    show "q \<in> set (targets [] (P[i := ?g]) ?h')"
      using set_go_targets_update [OF i(1), of ?g] by (auto simp: targets_def)
  qed
  from hp 3 4 6 dm show ?thesis by (simp add: prov_def)
qed

lemma prov_pass_begin:
  assumes p: "prov og [] P h L" and i: "i < length P" "P ! i = GoPass x r e thl erl"
    and hw: "handlers_work r e thl erl = Some hw"
  shows "prov og (hw @ [WUnlockDone x]) (P[i := GoDone]) (h[x := (h ! x)\<lparr>doneMu := True\<rparr>]) L"
proof -
  from p have gp: "list_all (go_prov og h) P" and lv: "live_prov og [] P h"
    by (simp_all add: prov_def)
  from gp i have g: "go_prov og h (GoPass x r e thl erl)"
    by (metis list_all_length)
  then have 2: "list_all (work_prov og h) (hw @ [WUnlockDone x])"
    using handlers_work_prov' [OF hw, of h x og] by simp
  from gp have 3: "list_all (go_prov og h) (P[i := GoDone])"
    by (rule list_all_update) simp
  have "concat (map work_targets hw) = go_targets (P ! i)"
    using handlers_work_targets [OF hw] i(2) by simp
  then have "set (targets (hw @ [WUnlockDone x]) (P[i := GoDone]) h) = set (targets [] P h)"
    using set_go_targets_split [OF i(1)] by (simp add: targets_def Un_assoc)
  with lv have 6: "live_prov og (hw @ [WUnlockDone x]) (P[i := GoDone]) h"
    by (simp add: live_prov_def)
  from p 2 3 6 have "prov og (hw @ [WUnlockDone x]) (P[i := GoDone]) h L"
    by (simp add: prov_def)
  then show ?thesis by (rule prov_doneMu)
qed

lemma prov_pool_update_free:
  assumes p: "prov og ws P h L" and g: "go_targets (P ! i) = []" "go_targets g = []" "go_prov og h g"
  shows "prov og ws (P[i := g]) h L"
proof -
  have "map go_targets (P[i := g]) = map go_targets P"
    by (rule map_update_same) (simp add: g)
  with p g(3) show ?thesis
    by (simp add: prov_def live_prov_def targets_def list_all_update)
qed

lemma then_hn_ok_mono: "then_hn_ok og x hn \<Longrightarrow> og \<subseteq>\<^sub>m og' \<Longrightarrow> then_hn_ok og' x hn"
  by (cases hn) (auto simp: map_le_def dom_def)

lemma err_hn_ok_mono: "err_hn_ok og x hn \<Longrightarrow> og \<subseteq>\<^sub>m og' \<Longrightarrow> err_hn_ok og' x hn"
  by (cases hn) (auto simp: map_le_def dom_def)

lemma promise_prov_mono: "promise_prov og x pr \<Longrightarrow> og \<subseteq>\<^sub>m og' \<Longrightarrow> promise_prov og' x pr"
  by (auto simp: promise_prov_def intro: then_hn_ok_mono err_hn_ok_mono)

lemma prod_prov_mono:
  "prod_prov og h t f \<Longrightarrow> og \<subseteq>\<^sub>m og' \<Longrightarrow> og' t = og t \<Longrightarrow> prod_prov og' h t f"
  by (cases f) auto

lemma work_prov_mono: "work_prov og h w \<Longrightarrow> og \<subseteq>\<^sub>m og' \<Longrightarrow> work_prov og' h w"
  by (cases w) (auto intro: then_hn_ok_mono err_hn_ok_mono)

lemma go_prov_mono:
  "go_prov og h g \<Longrightarrow> og \<subseteq>\<^sub>m og' \<Longrightarrow> (\<And>t. t < length h \<Longrightarrow> og' t = og t) \<Longrightarrow> go_prov og' h g"
  by (cases g) (auto intro: prod_prov_mono then_hn_ok_mono [of og] err_hn_ok_mono [of og])

lemma entry_prov_mono: "entry_prov og h x \<Longrightarrow> og \<subseteq>\<^sub>m og' \<Longrightarrow> entry_prov og' h x"
  by (cases x) (auto simp: map_le_def dom_def)

lemma set_concat_map_mono:
  assumes "length h0 = length h" "\<And>x. x < length h \<Longrightarrow> set (f (h ! x)) \<subseteq> set (f (h0 ! x))"
  shows "set (concat (map f h)) \<subseteq> set (concat (map f h0))"
proof
  fix a assume "a \<in> set (concat (map f h))"
  then obtain y where "y \<in> set h" "a \<in> set (f y)" by auto
  then obtain x where x: "x < length h" "a \<in> set (f (h ! x))"
    by (auto simp: in_set_conv_nth)
  with assms have "x < length h0" "a \<in> set (f (h0 ! x))" by auto
  then have "h0 ! x \<in> set h0" "a \<in> set (f (h0 ! x))" by simp_all
  then show "a \<in> set (concat (map f h0))" by auto
qed

text \<open>
  Allocating a promise, with or without an origin, while the promises that exist keep
  their state and their handlers.
\<close>

lemma prov_register:
  assumes p: "prov og ws P h L"
    and orig: "og' = og(length h := orig)"
    and l: "length h0 = length h"
    and same: "\<And>x. x < length h \<Longrightarrow>
        notDone (h0 ! x) = notDone (h ! x) \<and> res (h0 ! x) = res (h ! x) \<and> err (h0 ! x) = err (h ! x)"
    and pp0: "\<And>x. x < length h \<Longrightarrow> promise_prov og' x (h0 ! x)"
    and t0: "\<And>x. x < length h \<Longrightarrow> set (promise_targets (h ! x)) \<subseteq> set (promise_targets (h0 ! x))"
    and ppZ: "promise_prov og' (length h) Z"
    and gs: "list_all (go_prov og' (h0 @ [Z])) gs"
    and Z: "\<And>x f. orig = Some (FromThen x f) \<Longrightarrow>
              notDone Z \<and> length h \<in> set (targets ws (P @ gs) (h0 @ [Z]))"
  shows "prov og' ws (P @ gs) (h0 @ [Z]) L"
proof -
  let ?h' = "h0 @ [Z]"
  from p have wp: "list_all (work_prov og h) ws"
    and gp: "list_all (go_prov og h) P"
    and lp: "list_all (entry_prov og h) L"
    and rp: "result_prov og h" and lv: "live_prov og ws P h"
    and dm: "\<forall>q. og q \<noteq> None \<longrightarrow> q < length h"
    by (simp_all add: prov_def)
  from dm have n: "og (length h) = None" by auto
  with orig have le: "og \<subseteq>\<^sub>m og'" by (auto simp: map_le_def)
  from orig have old: "og' t = og t" if "t < length h" for t using that by simp
  have f: "notDone (?h' ! x) = notDone (h ! x)" "res (?h' ! x) = res (h ! x)"
    "err (?h' ! x) = err (h ! x)" if "x < length h" for x
    using that same [of x] l by (simp_all add: nth_append)
  have evo: "evolves h ?h'"
    using l f by (auto simp: evolves_def)
  have 1: "\<forall>x < length ?h'. promise_prov og' x (?h' ! x)"
    using pp0 ppZ l by (auto simp: nth_append less_Suc_eq)
  have 2: "list_all (work_prov og' ?h') ws"
    unfolding list_all_iff
  proof
    fix w assume "w \<in> set ws"
    with wp have "work_prov og h w" by (simp add: list_all_iff)
    then have "work_prov og' h w" using le by (rule work_prov_mono)
    then show "work_prov og' ?h' w" using evo by (rule work_prov_evolves)
  qed
  have "list_all (go_prov og' ?h') P"
    unfolding list_all_iff
  proof
    fix g assume "g \<in> set P"
    with gp have "go_prov og h g" by (simp add: list_all_iff)
    then have "go_prov og' h g" using le old by (rule go_prov_mono)
    then show "go_prov og' ?h' g" using evo by (rule go_prov_evolves)
  qed
  with gs have 3: "list_all (go_prov og' ?h') (P @ gs)" by simp
  have 4: "list_all (entry_prov og' ?h') L"
    unfolding list_all_iff
  proof
    fix x assume "x \<in> set L"
    with lp have "entry_prov og h x" by (simp add: list_all_iff)
    then have "entry_prov og' h x" using le by (rule entry_prov_mono)
    then show "entry_prov og' ?h' x" using evo by (rule entry_prov_evolves)
  qed
  have 5: "result_prov og' ?h'"
    unfolding result_prov_def
  proof (intro allI impI)
    fix q x g
    assume a: "og' q = Some (FromThen x g)" and d: "\<not> notDone (?h' ! q)"
    have "q \<noteq> length h"
    proof
      assume "q = length h"
      with a orig have "orig = Some (FromThen x g)" by simp
      from Z [OF this] d \<open>q = length h\<close> l show False by (simp add: nth_append)
    qed
    with a orig have a': "og q = Some (FromThen x g)" by simp
    with dm have q: "q < length h" by auto
    with d f have "\<not> notDone (h ! q)" by simp
    with rp a' have x: "x < length h" "\<not> notDone (h ! x)"
      "err (h ! x) \<noteq> None \<longrightarrow> res (h ! q) = default \<and> err (h ! q) = err (h ! x)"
      unfolding result_prov_def by blast+
    with q l f [of x] f [of q]
    show "x < length ?h' \<and> \<not> notDone (?h' ! x) \<and>
          (err (?h' ! x) \<noteq> None \<longrightarrow> res (?h' ! q) = default \<and> err (?h' ! q) = err (?h' ! x))"
      by simp
  qed
  have sub: "set (targets ws P h) \<subseteq> set (targets ws (P @ gs) ?h')"
    using set_concat_map_mono [of h0 h promise_targets, OF l t0]
    by (auto simp: targets_def)
  have 6: "live_prov og' ws (P @ gs) ?h'"
    unfolding live_prov_def
  proof (intro allI impI)
    fix q x g
    assume a: "og' q = Some (FromThen x g)" and nd: "notDone (?h' ! q)"
    show "q \<in> set (targets ws (P @ gs) ?h')"
    proof (cases "q = length h")
      case True
      with a orig have "orig = Some (FromThen x g)" by simp
      from Z [OF this] True show ?thesis by simp
    next
      case False
      with a orig have a': "og q = Some (FromThen x g)" by simp
      with dm have q: "q < length h" by auto
      with nd f have "notDone (h ! q)" by simp
      with lv a' have "q \<in> set (targets ws P h)" unfolding live_prov_def by blast
      with sub show ?thesis by blast
    qed
  qed
  have 7: "\<forall>q. og' q \<noteq> None \<longrightarrow> q < length ?h'"
    using dm orig l by (auto simp: less_Suc_eq)
  from 1 2 3 4 5 6 7 show ?thesis by (simp add: prov_def)
qed

definition Prov :: "(pid \<Rightarrow> ('v, 'u) origin option) \<Rightarrow> ('v::default, 'u) state \<Rightarrow> bool" where
  "Prov og s = prov og [] (pool s) (heap s) (invoked s)"

lemma prov_fresh_None: "prov og ws P h L \<Longrightarrow> og (length h) = None"
  by (auto simp: prov_def)

lemma prov_le: "prov og ws P h L \<Longrightarrow> og \<subseteq>\<^sub>m og(length h := orig)"
  by (auto simp: prov_def map_le_def)

lemma prov_register_update:
  assumes p: "prov og ws P h L"
    and og': "og' = og(length h := orig)"
    and pv: "p < length h"
    and Y: "notDone Y = notDone (h ! p)" "res Y = res (h ! p)" "err Y = err (h ! p)"
    and ppY: "promise_prov og' p Y"
    and tY: "set (promise_targets (h ! p)) \<subseteq> set (promise_targets Y)"
    and ppZ: "promise_prov og' (length h) Z"
    and gs: "list_all (go_prov og' (h[p := Y] @ [Z])) gs"
    and Z: "\<And>x f. orig = Some (FromThen x f) \<Longrightarrow>
              notDone Z \<and> length h \<in> set (targets ws (P @ gs) (h[p := Y] @ [Z]))"
  shows "prov og' ws (P @ gs) (h[p := Y] @ [Z]) L"
proof (rule prov_register [OF p og' _ _ _ _ ppZ gs Z])
  show "length (h[p := Y]) = length h" by simp
next
  fix x assume "x < length h"
  then show "notDone (h[p := Y] ! x) = notDone (h ! x) \<and> res (h[p := Y] ! x) = res (h ! x) \<and>
             err (h[p := Y] ! x) = err (h ! x)"
    using Y by (simp add: nth_update_if)
next
  fix x assume x: "x < length h"
  from p x have "promise_prov og x (h ! x)" by (simp add: prov_def)
  then have "promise_prov og' x (h ! x)"
    using prov_le [OF p, of orig] og' by (auto intro: promise_prov_mono)
  with ppY show "promise_prov og' x (h[p := Y] ! x)" by (auto simp: nth_update_if)
next
  fix x assume "x < length h"
  with tY show "set (promise_targets (h ! x)) \<subseteq> set (promise_targets (h[p := Y] ! x))"
    by (auto simp: nth_update_if)
qed

lemma prov_register_same:
  assumes p: "prov og ws P h L"
    and og': "og' = og(length h := orig)"
    and ppZ: "promise_prov og' (length h) Z"
    and gs: "list_all (go_prov og' (h @ [Z])) gs"
    and Z: "\<And>x f. orig = Some (FromThen x f) \<Longrightarrow>
              notDone Z \<and> length h \<in> set (targets ws (P @ gs) (h @ [Z]))"
  shows "prov og' ws (P @ gs) (h @ [Z]) L"
proof (rule prov_register [OF p og' _ _ _ _ ppZ gs Z])
  fix x assume x: "x < length h"
  from p x have "promise_prov og x (h ! x)" by (simp add: prov_def)
  then show "promise_prov og' x (h ! x)"
    using prov_le [OF p, of orig] og' by (auto intro: promise_prov_mono)
qed simp_all

lemma promise_prov_fresh [simp]:
  "promise_prov og x fresh_promise" "promise_prov og x (fresh_promise\<lparr>notDone := False\<rparr>)"
  by (simp_all add: promise_prov_def handlers_in_def promise_targets_def)

lemma promise_prov_zero [simp]:
  "promise_prov og x zero_promise" "promise_prov og x (zero_promise\<lparr>res := v\<rparr>)"
  "promise_prov og x (zero_promise\<lparr>err := e\<rparr>)"
  by (simp_all add: promise_prov_def handlers_in_def promise_targets_def)

lemma in_heap_targets:
  "p < length h \<Longrightarrow> q \<in> set (promise_targets (h ! p)) \<Longrightarrow> q \<in> set (targets ws P (h @ hs))"
  using nth_mem [of p h] by (auto simp: targets_def)

lemma Then_Prov:
  assumes I: "Inv s" and P: "Prov og s" and p: "p < length (heap s)"
  shows "\<exists>s'. Then p f s = Ok (length (heap s), s') \<and>
              Prov (og(length (heap s) \<mapsto> FromThen p f)) s'"
proof (cases "notDone (heap s ! p)")
  case True
  let ?q = "length (heap s)"
  let ?og = "og(?q \<mapsto> FromThen p f)"
  from Inv_promise [OF I p] True obtain thl erl where
    l: "thenList (heap s ! p) = Some thl" "errorList (heap s ! p) = Some erl"
    by (auto simp: promise_ok_def)
  let ?Y = "(heap s ! p)\<lparr>thenList := Some (thl @ [ThenHn ?q f]),
               errorList := Some (erl @ [ThenCatchHn ?q])\<rparr>"
  from P have pr: "prov og [] (pool s) (heap s) (invoked s)" by (simp add: Prov_def)
  then have "promise_prov og p (heap s ! p)" using p by (simp add: prov_def)
  then have old: "promise_prov ?og p (heap s ! p)"
    using prov_le [OF pr] by (rule promise_prov_mono)
  have tt: "then_targets ?Y = then_targets (heap s ! p) @ [?q]"
    "promise_targets ?Y = promise_targets (heap s ! p) @ [?q]"
    using l by (simp_all add: then_targets_def promise_targets_def handlers_in_def)
  have ppY: "promise_prov ?og p ?Y"
    using old l True unfolding promise_prov_def tt
    by (auto simp: handlers_in_def)
  have "prov ?og [] (pool s @ []) ((heap s)[p := ?Y] @ [fresh_promise]) (invoked s)"
  proof (rule prov_register_update [OF pr refl p _ _ _ ppY])
    fix x g assume "Some (FromThen p f) = Some (FromThen x g)"
    have "?q \<in> set (promise_targets (((heap s)[p := ?Y]) ! p))"
      using p tt(2) by simp
    from in_heap_targets [of p "(heap s)[p := ?Y]", OF _ this] p
    show "notDone fresh_promise \<and>
          ?q \<in> set (targets [] (pool s @ []) ((heap s)[p := ?Y] @ [fresh_promise]))"
      by simp
  qed (auto simp: tt)
  then show ?thesis
    using Then_pending [OF p Inv_promise(2) [OF I p] True l, of f]
    by (simp add: Prov_def)
next
  case False
  let ?q = "length (heap s)"
  let ?og = "og(?q \<mapsto> FromThen p f)"
  let ?g = "GoCall ?q (ThenDoneBody p (err (heap s ! p)) (res (heap s ! p)) f)"
  from P have pr: "prov og [] (pool s) (heap s) (invoked s)" by (simp add: Prov_def)
  have "prov ?og [] (pool s @ [?g]) (heap s @ [fresh_promise]) (invoked s)"
  proof (rule prov_register_same [OF pr refl])
    show "list_all (go_prov ?og (heap s @ [fresh_promise])) [?g]"
      using p False by (simp add: settled_as_def nth_append)
  next
    fix x g assume "Some (FromThen p f) = Some (FromThen x g)"
    show "notDone fresh_promise \<and>
          ?q \<in> set (targets [] (pool s @ [?g]) (heap s @ [fresh_promise]))"
      by (simp add: targets_def)
  qed simp
  then show ?thesis
    using Then_done [OF p Inv_promise(2) [OF I p] False, of f]
    by (simp add: Prov_def NewFn_simp)
qed

lemma Catch_Prov:
  assumes I: "Inv s" and P: "Prov og s" and p: "p < length (heap s)"
  shows "\<exists>s'. Catch p f s = Ok (length (heap s), s') \<and>
              Prov (og(length (heap s) \<mapsto> FromCatch p f)) s'"
proof (cases "notDone (heap s ! p)")
  case True
  let ?q = "length (heap s)"
  let ?og = "og(?q \<mapsto> FromCatch p f)"
  from Inv_promise [OF I p] True obtain thl erl where
    l: "thenList (heap s ! p) = Some thl" "errorList (heap s ! p) = Some erl"
    by (auto simp: promise_ok_def)
  let ?Y = "(heap s ! p)\<lparr>errorList := Some (erl @ [CatchHn ?q f])\<rparr>"
  from P have pr: "prov og [] (pool s) (heap s) (invoked s)" by (simp add: Prov_def)
  then have "promise_prov og p (heap s ! p)" using p by (simp add: prov_def)
  then have old: "promise_prov ?og p (heap s ! p)"
    using prov_le [OF pr] by (rule promise_prov_mono)
  have tt: "then_targets ?Y = then_targets (heap s ! p)"
    "promise_targets ?Y = promise_targets (heap s ! p) @ [?q]"
    using l by (simp_all add: then_targets_def promise_targets_def handlers_in_def)
  have ppY: "promise_prov ?og p ?Y"
    using old l True unfolding promise_prov_def tt
    by (auto simp: handlers_in_def)
  have "prov ?og [] (pool s @ []) ((heap s)[p := ?Y] @ [fresh_promise]) (invoked s)"
    by (rule prov_register_update [OF pr refl p _ _ _ ppY]) (auto simp: tt)
  then show ?thesis
    using Catch_pending [OF p Inv_promise(2) [OF I p] True l(2), of f]
    by (simp add: Prov_def)
next
  case False
  let ?q = "length (heap s)"
  let ?og = "og(?q \<mapsto> FromCatch p f)"
  from P have pr: "prov og [] (pool s) (heap s) (invoked s)" by (simp add: Prov_def)
  show ?thesis
  proof (cases "err (heap s ! p)")
    case None
    have "prov ?og [] (pool s @ []) (heap s @ [fresh_promise\<lparr>notDone := False\<rparr>]) (invoked s)"
      by (rule prov_register_same [OF pr refl]) simp_all
    then show ?thesis
      using Catch_done_nil [OF p Inv_promise(2) [OF I p] False None, of f]
      by (simp add: Prov_def)
  next
    case (Some e)
    let ?g = "GoCall ?q (CatchDoneBody p (Some e) f)"
    have "prov ?og [] (pool s @ [?g]) (heap s @ [fresh_promise]) (invoked s)"
    proof (rule prov_register_same [OF pr refl])
      show "list_all (go_prov ?og (heap s @ [fresh_promise])) [?g]"
        using p False Some by (simp add: failed_as_def nth_append)
    qed simp_all
    then show ?thesis
      using Catch_done_err [OF p Inv_promise(2) [OF I p] False Some, of f]
      by (simp add: Prov_def)
  qed
qed

lemma NewFn_Prov:
  assumes P: "Prov og s"
  shows "Prov og (snd (NewFn (UserProducer g) s))"
proof -
  let ?q = "length (heap s)"
  let ?g = "GoCall ?q (UserProducer g)"
  from P have pr: "prov og [] (pool s) (heap s) (invoked s)" by (simp add: Prov_def)
  have e: "og(?q := None) = og" using prov_fresh_None [OF pr] by auto
  have "prov (og(?q := None)) [] (pool s @ [?g]) (heap s @ [fresh_promise]) (invoked s)"
    by (rule prov_register_same [OF pr refl]) (simp_all add: prov_fresh_None [OF pr])
  then show ?thesis by (simp add: e NewFn_simp Prov_def)
qed

lemma new_settled_Prov:
  assumes P: "Prov og s" and X: "promise_prov og (length (heap s)) X"
  shows "Prov og (snd (new_promise X s))"
proof -
  let ?q = "length (heap s)"
  from P have pr: "prov og [] (pool s) (heap s) (invoked s)" by (simp add: Prov_def)
  have e: "og(?q := None) = og" using prov_fresh_None [OF pr] by auto
  have "prov (og(?q := None)) [] (pool s @ []) (heap s @ [X]) (invoked s)"
    by (rule prov_register_same [OF pr refl]) (simp_all add: e X)
  then show ?thesis by (simp add: e new_promise_def Prov_def)
qed

lemma Prov_frames [simp]:
  "Prov og (s\<lparr>errChans := c\<rparr>) = Prov og s" "Prov og (s\<lparr>alls := a\<rparr>) = Prov og s"
  "Prov og (s\<lparr>races := r\<rparr>) = Prov og s" "Prov og (s\<lparr>iters := k\<rparr>) = Prov og s"
  "Prov og (s\<lparr>world := w\<rparr>) = Prov og s"
  by (simp_all add: Prov_def)

lemma Prov_group_done [simp]: "Prov og (group_done a m s) = Prov og s"
  by (simp add: group_done_def)

text \<open>The origin that a step of a goroutine adds: the workers of \<^verbatim>\<open>All\<close> call \<^verbatim>\<open>Then\<close> and \<^verbatim>\<open>Catch\<close>.\<close>

fun goroutine_origin ::
  "('v, 'u) goroutine \<Rightarrow> ('v, 'u) state \<Rightarrow> ('v, 'u) origin option" where
  "goroutine_origin (AllWorkerThen a i x) s = Some (FromThen x (AllThenFn a i (length (errChans s))))"
| "goroutine_origin (AllWorkerCatch a x c) s = Some (FromCatch x (AllCatchFn c))"
| "goroutine_origin g s = None"

definition step_origin ::
  "nat \<Rightarrow> ('v, 'u) state \<Rightarrow> (pid \<Rightarrow> ('v, 'u) origin option) \<Rightarrow> (pid \<Rightarrow> ('v, 'u) origin option)" where
  "step_origin j s og =
     (if j < length (pool s) then
        (case goroutine_origin (pool s ! j) s of
           None \<Rightarrow> og
         | Some orig \<Rightarrow> og(length (heap s) \<mapsto> orig))
      else og)"

lemma sched_step_Prov:
  assumes I: "Inv s" and P: "Prov og s" and st: "sched_step j s = Ok s'"
  shows "Prov (step_origin j s og) s'"
proof (cases "j < length (pool s)")
  case False
  with st P show ?thesis by (simp add: sched_step_def step_origin_def)
next
  case j: True
  from I have inv0: "inv [] (pool s) (heap s)" by (simp add: Inv_def)
  from P have pr: "prov og [] (pool s) (heap s) (invoked s)" by (simp add: Prov_def)
  from inv0 have gok: "goroutine_ok (heap s) (pool s ! j)"
    using j by (simp add: inv_def list_all_length)
  show ?thesis
  proof (cases "pool s ! j")
    case (GoCall q f)
    have "q \<in> set (targets [] (pool s) (heap s))"
      using j GoCall nth_mem [of j "pool s"] by (force simp: targets_def)
    with inv0 have q: "q < length (heap s)" "notDone (heap s ! q)"
      by (auto simp: inv_def targets_ok_def)
    from eval_producer_total [of s f q] gok GoCall Inv_promise(3) [OF I]
    obtain x where "eval_producer q f s = Ok x" by auto
    then obtain r e s1 where ev: "eval_producer q f s = Ok ((r, e), s1)" by (cases x) auto
    let ?X = "(heap s ! q)\<lparr>notDone := False, err := e, res := r, thenList := None, errorList := None\<rparr>"
    from prov_settle_goroutine [OF pr j GoCall q ev, of ?X]
    have "prov og [] ((pool s)[j := GoPass q r e (thenList (heap s ! q)) (errorList (heap s ! q))])
            ((heap s)[q := ?X]) (invoked s1)" by simp
    with sched_step_GoCall [OF j GoCall q(1) Inv_promise(2) [OF I q(1)] ev] st
      eval_producer_pool [OF ev] j GoCall
    show ?thesis by (auto simp: Prov_def step_origin_def)
  next
    case (GoPass p r e thl erl)
    with gok have p: "p < length (heap s)" "\<not> notDone (heap s ! p)" by auto
    from gok GoPass obtain hw where hw: "handlers_work r e thl erl = Some hw"
      by (auto simp: handlers_work_def split: if_splits)
    let ?s1 = "s\<lparr>heap := (heap s)[p := (heap s ! p)\<lparr>doneMu := True\<rparr>]\<rparr>"
    have pb: "pass_begin p r e thl erl s = Ok (hw @ [WUnlockDone p], ?s1)"
      using p Inv_promise(3) [OF I p(1)] hw by (simp add: pass_begin_def LockDone_def)
    from inv_pass_begin [OF inv0 j GoPass hw]
    have i1: "inv (hw @ [WUnlockDone p]) ((pool s)[j := GoDone]) (heap ?s1)" by simp
    from prov_pass_begin [OF pr j GoPass hw]
    have p1: "prov og (hw @ [WUnlockDone p]) ((pool s)[j := GoDone]) (heap ?s1) (invoked ?s1)" by simp
    from inv_run [OF i1] obtain s2 where r: "run (hw @ [WUnlockDone p]) ?s1 = Ok s2" by blast
    from prov_run [OF p1 i1 r] have p2: "prov og [] ((pool s)[j := GoDone]) (heap s2) (invoked s2)" .
    from run_pool [OF r] have ps: "pool s2 = pool s" by simp
    from st pb r j GoPass have "s' = s2\<lparr>pool := (pool s2)[j := GoDone]\<rparr>"
      by (simp add: sched_step_def call_pass_def)
    with p2 ps j GoPass show ?thesis by (simp add: Prov_def step_origin_def)
  next
    case (AllWorkerThen a k x)
    with gok have x: "x < length (heap s)" by simp
    let ?s0 = "s\<lparr>errChans := errChans s @ [[]]\<rparr>"
    let ?f = "AllThenFn a k (length (errChans s))"
    have I0: "Inv ?s0" using I by simp
    have P0: "Prov og ?s0" using P by simp
    from Then_Prov [OF I0 P0, of x ?f] x obtain s1 where
      t: "Then x ?f ?s0 = Ok (length (heap s), s1)"
      and P1: "Prov (og(length (heap s) \<mapsto> FromThen x ?f)) s1" by auto
    from Then_pool [OF I0 _ t] x obtain gs where ps: "pool s1 = pool s @ gs" by auto
    with j AllWorkerThen have pi: "pool s1 ! j = AllWorkerThen a k x" by (simp add: nth_append)
    from P1 have "prov (og(length (heap s) \<mapsto> FromThen x ?f)) [] (pool s1) (heap s1) (invoked s1)"
      by (simp add: Prov_def)
    from prov_pool_update_free [OF this, of j "AllWorkerCatch a x (length (errChans s))"] pi
    have "Prov (og(length (heap s) \<mapsto> FromThen x ?f))
            (s1\<lparr>pool := (pool s1)[j := AllWorkerCatch a x (length (errChans s))]\<rparr>)"
      by (simp add: Prov_def)
    with t st j AllWorkerThen show ?thesis
      by (simp add: sched_step_def step_origin_def)
  next
    case (AllWorkerCatch a x c)
    with gok have x: "x < length (heap s)" by simp
    from Catch_Prov [OF I P, of x "AllCatchFn c"] x obtain s1 where
      t: "Catch x (AllCatchFn c) s = Ok (length (heap s), s1)"
      and P1: "Prov (og(length (heap s) \<mapsto> FromCatch x (AllCatchFn c))) s1" by auto
    from Catch_pool [OF I _ t] x obtain gs where ps: "pool s1 = pool s @ gs" by auto
    with j AllWorkerCatch have pi: "pool s1 ! j = AllWorkerCatch a x c" by (simp add: nth_append)
    from P1 have "prov (og(length (heap s) \<mapsto> FromCatch x (AllCatchFn c))) [] (pool s1) (heap s1) (invoked s1)"
      by (simp add: Prov_def)
    from prov_pool_update_free [OF this, of j "AllWorkerRecv a c"] pi
    have "Prov (og(length (heap s) \<mapsto> FromCatch x (AllCatchFn c)))
            (s1\<lparr>pool := (pool s1)[j := AllWorkerRecv a c]\<rparr>)"
      by (simp add: Prov_def)
    with t st j AllWorkerCatch show ?thesis
      by (simp add: sched_step_def step_origin_def)
  next
    case (AllWorkerRecv a c)
    from prov_pool_update_free [OF pr, of j GoDone] AllWorkerRecv
    have "prov og [] ((pool s)[j := GoDone]) (heap s) (invoked s)" by simp
    moreover have "(pool s)[j := AllWorkerRecv a c] = pool s"
      using AllWorkerRecv [symmetric] by (simp add: list_update_same_conv j)
    ultimately show ?thesis
      using j AllWorkerRecv P st
      by (cases "errChans s ! c") (auto simp: sched_step_def Prov_def group_done_def step_origin_def)
  next
    case GoDone
    then have "(pool s)[j := GoDone] = pool s"
      by (metis list_update_id)
    with j GoDone P st show ?thesis by (auto simp: sched_step_def step_origin_def)
  qed
qed

lemma step_origin_le:
  assumes "Prov og s"
  shows "og \<subseteq>\<^sub>m step_origin j s og"
proof -
  from assms have "og (length (heap s)) = None" by (auto simp: Prov_def prov_def)
  then show ?thesis
    by (auto simp: step_origin_def map_le_def split: option.splits)
qed

section \<open>The variables that the closures of the batch combinators capture\<close>

text \<open>
  The closures of \<^verbatim>\<open>All\<close>, \<^verbatim>\<open>Race\<close> and \<^verbatim>\<open>Iterator\<close> refer to frames. A closure or a
  worker is closed when its frames have been allocated.
\<close>

record sizes =
  n_alls :: nat
  n_chans :: nat
  n_races :: nat
  n_iters :: nat

definition sizes_of :: "('v, 'u) state \<Rightarrow> sizes" where
  "sizes_of s = \<lparr>n_alls = length (alls s), n_chans = length (errChans s),
                 n_races = length (races s), n_iters = length (iters s)\<rparr>"

definition sizes_le :: "sizes \<Rightarrow> sizes \<Rightarrow> bool" where
  "sizes_le a b \<longleftrightarrow> n_alls a \<le> n_alls b \<and> n_chans a \<le> n_chans b \<and>
                    n_races a \<le> n_races b \<and> n_iters a \<le> n_iters b"

fun fnT_closed :: "sizes \<Rightarrow> ('v, 'u) fnT \<Rightarrow> bool" where
  "fnT_closed z (UserFn g) = True"
| "fnT_closed z (AllThenFn a i c) = (a < n_alls z \<and> c < n_chans z)"
| "fnT_closed z (RaceThenFn r) = (r < n_races z)"
| "fnT_closed z (IterThenFn k) = (k < n_iters z)"

fun fnE_closed :: "sizes \<Rightarrow> ('v, 'u) fnE \<Rightarrow> bool" where
  "fnE_closed z (UserErrFn g) = True"
| "fnE_closed z (AllCatchFn c) = (c < n_chans z)"
| "fnE_closed z (RaceCatchFn r) = (r < n_races z)"
| "fnE_closed z (IterCatchFn k) = (k < n_iters z)"

fun origin_closed :: "sizes \<Rightarrow> ('v, 'u) origin \<Rightarrow> bool" where
  "origin_closed z (FromThen x f) = fnT_closed z f"
| "origin_closed z (FromCatch x f) = fnE_closed z f"

fun go_closed :: "sizes \<Rightarrow> ('v, 'u) goroutine \<Rightarrow> bool" where
  "go_closed z (AllWorkerThen a i x) = (a < n_alls z)"
| "go_closed z (AllWorkerCatch a x c) = (a < n_alls z \<and> c < n_chans z)"
| "go_closed z (AllWorkerRecv a c) = (a < n_alls z \<and> c < n_chans z)"
| "go_closed z g = True"

definition closed ::
  "(pid \<Rightarrow> ('v, 'u) origin option) \<Rightarrow> sizes \<Rightarrow> ('v, 'u) goroutine list \<Rightarrow> bool" where
  "closed og z P \<longleftrightarrow> (\<forall>q orig. og q = Some orig \<longrightarrow> origin_closed z orig) \<and> list_all (go_closed z) P"

definition Closed :: "(pid \<Rightarrow> ('v, 'u) origin option) \<Rightarrow> ('v, 'u) state \<Rightarrow> bool" where
  "Closed og s = closed og (sizes_of s) (pool s)"

lemma sizes_le_refl [simp]: "sizes_le a a"
  by (simp add: sizes_le_def)

lemma sizes_le_trans: "sizes_le a b \<Longrightarrow> sizes_le b c \<Longrightarrow> sizes_le a c"
  by (auto simp: sizes_le_def)

lemma fnT_closed_mono: "fnT_closed z f \<Longrightarrow> sizes_le z z' \<Longrightarrow> fnT_closed z' f"
  by (cases f) (auto simp: sizes_le_def)

lemma fnE_closed_mono: "fnE_closed z f \<Longrightarrow> sizes_le z z' \<Longrightarrow> fnE_closed z' f"
  by (cases f) (auto simp: sizes_le_def)

lemma origin_closed_mono: "origin_closed z x \<Longrightarrow> sizes_le z z' \<Longrightarrow> origin_closed z' x"
  by (cases x) (auto intro: fnT_closed_mono fnE_closed_mono)

lemma go_closed_mono: "go_closed z g \<Longrightarrow> sizes_le z z' \<Longrightarrow> go_closed z' g"
  by (cases g) (auto simp: sizes_le_def)

lemma closed_mono: "closed og z P \<Longrightarrow> sizes_le z z' \<Longrightarrow> closed og z' P"
  unfolding closed_def list_all_iff
  by (blast intro: origin_closed_mono go_closed_mono)

lemma closed_update:
  "closed og z P \<Longrightarrow> go_closed z g \<Longrightarrow> closed og z (P[j := g])"
  by (simp add: closed_def list_all_update)

lemma closed_append:
  "closed og z P \<Longrightarrow> list_all (go_closed z) gs \<Longrightarrow> closed og z (P @ gs)"
  by (simp add: closed_def)

lemma closed_origin:
  "closed og z P \<Longrightarrow> origin_closed z orig \<Longrightarrow> closed (og(q \<mapsto> orig)) z P"
  by (simp add: closed_def)

text \<open>Which fields the operations leave alone.\<close>

lemma apply_fnT_sizes [simp]: "sizes_of (snd (apply_fnT f v s)) = sizes_of s"
  by (cases f) (auto simp: sizes_of_def)

lemma apply_fnE_sizes [simp]: "sizes_of (snd (apply_fnE f v s)) = sizes_of s"
  by (cases f) (auto simp: sizes_of_def)

lemma sizes_of_simps [simp]:
  "sizes_of (s\<lparr>heap := h\<rparr>) = sizes_of s" "sizes_of (s\<lparr>pool := P\<rparr>) = sizes_of s"
  "sizes_of (s\<lparr>world := w\<rparr>) = sizes_of s" "sizes_of (s\<lparr>invoked := L\<rparr>) = sizes_of s"
  by (simp_all add: sizes_of_def)

lemma apply_fnT_sizes': "apply_fnT f v s = (re, s1) \<Longrightarrow> sizes_of s1 = sizes_of s"
  using apply_fnT_sizes [of f v s] by simp

lemma apply_fnE_sizes': "apply_fnE f v s = (re, s1) \<Longrightarrow> sizes_of s1 = sizes_of s"
  using apply_fnE_sizes [of f v s] by simp

lemma eval_producer_sizes: "eval_producer q f s = Ok (re, s1) \<Longrightarrow> sizes_of s1 = sizes_of s"
  by (cases f)
    (auto simp: obind_Ok_iff LockDone_Ok UnlockDone_def note_invoked_def
      dest!: apply_fnT_sizes' apply_fnE_sizes' split: if_splits)

lemma exec_item_sizes: "exec_item w s = Ok (ws', s') \<Longrightarrow> sizes_of s' = sizes_of s"
proof -
  assume ex: "exec_item w s = Ok (ws', s')"
  consider "work_targets w = []" | q where "work_targets w = [q]"
    using work_targets_cases [of w] by blast
  then show ?thesis
  proof cases
    case 1
    from exec_item_no_target [OF ex 1] show ?thesis
      by (cases w) (auto simp: UnlockDone_def)
  next
    case 2
    from exec_item_handler [OF ex 2] show ?thesis
      by (auto dest: eval_producer_sizes)
  qed
qed

lemma run_sizes: "run ws s = Ok s' \<Longrightarrow> sizes_of s' = sizes_of s"
proof (induction ws s rule: run.induct)
  case (1 s)
  then show ?case by simp
next
  case (2 w ws s)
  from "2.prems" obtain ws1 s1 where ex: "exec_item w s = Ok (ws1, s1)" and r: "run (ws1 @ ws) s1 = Ok s'"
    by (auto split: outcome.splits)
  from "2.IH" [OF ex refl r] exec_item_sizes [OF ex] show ?case by simp
qed

fun is_call :: "('v, 'u) goroutine \<Rightarrow> bool" where
  "is_call (GoCall q f) = True"
| "is_call g = False"

lemma is_call_closed: "list_all is_call gs \<Longrightarrow> list_all (go_closed z) gs"
  unfolding list_all_iff
proof
  fix g assume "\<forall>g \<in> set gs. is_call g" "g \<in> set gs"
  then have "is_call g" by blast
  then show "go_closed z g" by (cases g) auto
qed

lemma Then_frames:
  assumes "Inv s" "p < length (heap s)" "Then p f s = Ok (q, s')"
  shows "alls s' = alls s \<and> errChans s' = errChans s \<and> races s' = races s \<and> iters s' = iters s \<and>
         invoked s' = invoked s \<and> world s' = world s \<and>
         (\<exists>gs. pool s' = pool s @ gs \<and> list_all is_call gs)"
proof (cases "notDone (heap s ! p)")
  case True
  from Inv_promise [OF assms(1,2)] True obtain thl erl where
    l: "thenList (heap s ! p) = Some thl" "errorList (heap s ! p) = Some erl"
    by (auto simp: promise_ok_def)
  from Then_pending [OF assms(2) Inv_promise(2) [OF assms(1,2)] True l, of f] assms(3)
  show ?thesis by auto
next
  case False
  from Then_done [OF assms(2) Inv_promise(2) [OF assms(1,2)] False, of f] assms(3)
  show ?thesis by (auto simp: NewFn_simp)
qed

lemma Catch_frames:
  assumes "Inv s" "p < length (heap s)" "Catch p f s = Ok (q, s')"
  shows "alls s' = alls s \<and> errChans s' = errChans s \<and> races s' = races s \<and> iters s' = iters s \<and>
         invoked s' = invoked s \<and> world s' = world s \<and>
         (\<exists>gs. pool s' = pool s @ gs \<and> list_all is_call gs)"
proof (cases "notDone (heap s ! p)")
  case True
  from Inv_promise [OF assms(1,2)] True obtain thl erl where
    l: "thenList (heap s ! p) = Some thl" "errorList (heap s ! p) = Some erl"
    by (auto simp: promise_ok_def)
  from Catch_pending [OF assms(2) Inv_promise(2) [OF assms(1,2)] True l(2), of f] assms(3)
  show ?thesis by auto
next
  case False
  show ?thesis
  proof (cases "err (heap s ! p)")
    case None
    from Catch_done_nil [OF assms(2) Inv_promise(2) [OF assms(1,2)] False None, of f] assms(3)
    show ?thesis by auto
  next
    case (Some e)
    from Catch_done_err [OF assms(2) Inv_promise(2) [OF assms(1,2)] False Some, of f] assms(3)
    show ?thesis by auto
  qed
qed

lemma Then_Closed:
  assumes I: "Inv s" and C: "Closed og s" and p: "p < length (heap s)"
    and t: "Then p f s = Ok (q, s')" and f: "fnT_closed (sizes_of s) f"
  shows "Closed (og(q \<mapsto> FromThen p f)) s'"
proof -
  from Then_frames [OF I p t] obtain gs where
    z: "sizes_of s' = sizes_of s" and ps: "pool s' = pool s @ gs" "list_all is_call gs"
    by (auto simp: sizes_of_def)
  from C have "closed og (sizes_of s) (pool s @ gs)"
    unfolding Closed_def using is_call_closed [OF ps(2)] by (rule closed_append)
  then have "closed (og(q \<mapsto> FromThen p f)) (sizes_of s) (pool s @ gs)"
    by (rule closed_origin) (simp add: f)
  then show ?thesis by (simp add: Closed_def z ps)
qed

lemma Catch_Closed:
  assumes I: "Inv s" and C: "Closed og s" and p: "p < length (heap s)"
    and t: "Catch p f s = Ok (q, s')" and f: "fnE_closed (sizes_of s) f"
  shows "Closed (og(q \<mapsto> FromCatch p f)) s'"
proof -
  from Catch_frames [OF I p t] obtain gs where
    z: "sizes_of s' = sizes_of s" and ps: "pool s' = pool s @ gs" "list_all is_call gs"
    by (auto simp: sizes_of_def)
  from C have "closed og (sizes_of s) (pool s @ gs)"
    unfolding Closed_def using is_call_closed [OF ps(2)] by (rule closed_append)
  then have "closed (og(q \<mapsto> FromCatch p f)) (sizes_of s) (pool s @ gs)"
    by (rule closed_origin) (simp add: f)
  then show ?thesis by (simp add: Closed_def z ps)
qed

lemma sizes_of_frames [simp]:
  "sizes_of (s\<lparr>errChans := (errChans s)[c := m]\<rparr>) = sizes_of s"
  "sizes_of (s\<lparr>alls := (alls s)[a := fr]\<rparr>) = sizes_of s"
  "sizes_of (s\<lparr>iters := (iters s)[k := it]\<rparr>) = sizes_of s"
  "sizes_of (s\<lparr>races := (races s)[r := rf]\<rparr>) = sizes_of s"
  by (simp_all add: sizes_of_def)

lemma sizes_of_group_done [simp]: "sizes_of (group_done a m s) = sizes_of s"
  by (simp add: group_done_def sizes_of_def)

lemma sizes_le_alloc:
  "sizes_le (sizes_of s) (sizes_of (s\<lparr>errChans := errChans s @ [x]\<rparr>))"
  "sizes_le (sizes_of s) (sizes_of (s\<lparr>alls := alls s @ [y]\<rparr>))"
  "sizes_le (sizes_of s) (sizes_of (s\<lparr>iters := iters s @ [z]\<rparr>))"
  "sizes_le (sizes_of s) (sizes_of (s\<lparr>races := races s @ [w]\<rparr>))"
  by (simp_all add: sizes_le_def sizes_of_def)

lemma sched_step_Closed:
  assumes I: "Inv s" and C: "Closed og s" and st: "sched_step j s = Ok s'"
  shows "Closed (step_origin j s og) s' \<and> sizes_le (sizes_of s) (sizes_of s')"
proof (cases "j < length (pool s)")
  case False
  with st C show ?thesis by (simp add: sched_step_def step_origin_def)
next
  case j: True
  from C have c0: "closed og (sizes_of s) (pool s)" by (simp add: Closed_def)
  then have gc: "go_closed (sizes_of s) (pool s ! j)"
    using j by (simp add: closed_def list_all_length)
  from I have inv0: "inv [] (pool s) (heap s)" by (simp add: Inv_def)
  then have gok: "goroutine_ok (heap s) (pool s ! j)"
    using j by (simp add: inv_def list_all_length)
  show ?thesis
  proof (cases "pool s ! j")
    case (GoCall q f)
    with st j obtain r e thl erl s1 where cs: "call_settle q f s = Ok ((r, e, thl, erl), s1)"
      and s': "s' = s1\<lparr>pool := (pool s1)[j := GoPass q r e thl erl]\<rparr>"
      by (auto simp: sched_step_def obind_Ok_iff)
    from cs obtain s0 where ev: "eval_producer q f s = Ok ((r, e), s0)"
      and s1: "sizes_of s1 = sizes_of s0" "pool s1 = pool s0"
      by (auto simp: call_settle_Ok)
    from eval_producer_sizes [OF ev] eval_producer_pool [OF ev] s1
    have "sizes_of s1 = sizes_of s" "pool s1 = pool s" by simp_all
    with closed_update [OF c0, of "GoPass q r e thl erl" j] s' j GoCall
    show ?thesis by (simp add: Closed_def step_origin_def)
  next
    case (GoPass p r e thl erl)
    with st j obtain ws s1 s2 where pb: "pass_begin p r e thl erl s = Ok (ws, s1)"
      and r: "run ws s1 = Ok s2" and s': "s' = s2\<lparr>pool := (pool s2)[j := GoDone]\<rparr>"
      by (auto simp: sched_step_def call_pass_def obind_Ok_iff)
    from pb have "sizes_of s1 = sizes_of s" "pool s1 = pool s"
      by (auto simp: pass_begin_Ok)
    with run_sizes [OF r] run_pool [OF r] have "sizes_of s2 = sizes_of s" "pool s2 = pool s" by simp_all
    with closed_update [OF c0, of GoDone j] s' j GoPass
    show ?thesis by (simp add: Closed_def step_origin_def)
  next
    case (AllWorkerThen a k x)
    with gok have x: "x < length (heap s)" by simp
    let ?s0 = "s\<lparr>errChans := errChans s @ [[]]\<rparr>"
    let ?f = "AllThenFn a k (length (errChans s))"
    have I0: "Inv ?s0" using I by simp
    have le: "sizes_le (sizes_of s) (sizes_of ?s0)" by (rule sizes_le_alloc)
    from c0 le have C0: "Closed og ?s0" unfolding Closed_def by (simp add: closed_mono)
    from Then_Inv [OF I0, of x ?f] x obtain s1 where
      t: "Then x ?f ?s0 = Ok (length (heap s), s1)" by auto
    from gc AllWorkerThen have a: "a < length (alls s)" by (simp add: sizes_of_def)
    then have fc: "fnT_closed (sizes_of ?s0) ?f" by (simp add: sizes_of_def)
    from Then_Closed [OF I0 C0 _ t fc] x
    have C1: "closed (og(length (heap s) \<mapsto> FromThen x ?f)) (sizes_of s1) (pool s1)"
      by (simp add: Closed_def)
    from Then_frames [OF I0 _ t] x have fr: "alls s1 = alls s" "errChans s1 = errChans s @ [[]]"
      by simp_all
    from Then_frames [OF I0 _ t] x have z: "sizes_of s1 = sizes_of ?s0" by (simp add: sizes_of_def)
    have "go_closed (sizes_of s1) (AllWorkerCatch a x (length (errChans s)))"
      using a fr by (simp add: sizes_of_def)
    from closed_update [OF C1 this, of j] t st j AllWorkerThen le z
    show ?thesis by (auto simp: sched_step_def step_origin_def Closed_def)
  next
    case (AllWorkerCatch a x c)
    with gok have x: "x < length (heap s)" by simp
    from Catch_Inv [OF I, of x "AllCatchFn c"] x obtain s1 where
      t: "Catch x (AllCatchFn c) s = Ok (length (heap s), s1)" by auto
    from gc AllWorkerCatch have a: "a < length (alls s)" "c < length (errChans s)"
      by (simp_all add: sizes_of_def)
    then have fc: "fnE_closed (sizes_of s) (AllCatchFn c)" by (simp add: sizes_of_def)
    from Catch_Closed [OF I C x t fc]
    have C1: "closed (og(length (heap s) \<mapsto> FromCatch x (AllCatchFn c))) (sizes_of s1) (pool s1)"
      by (simp add: Closed_def)
    from Catch_frames [OF I x t] have fr: "alls s1 = alls s" "errChans s1 = errChans s"
      by simp_all
    from Catch_frames [OF I x t] have z: "sizes_of s1 = sizes_of s" by (simp add: sizes_of_def)
    have "go_closed (sizes_of s1) (AllWorkerRecv a c)"
      using a fr by (simp add: sizes_of_def)
    from closed_update [OF C1 this, of j] t st j AllWorkerCatch z
    show ?thesis by (auto simp: sched_step_def step_origin_def Closed_def)
  next
    case (AllWorkerRecv a c)
    have e: "(pool s)[j := AllWorkerRecv a c] = pool s"
      using AllWorkerRecv [symmetric] by (simp add: list_update_same_conv j)
    from closed_update [OF c0, of GoDone j] have cd: "closed og (sizes_of s) ((pool s)[j := GoDone])" by simp
    from st j AllWorkerRecv e
    have "sizes_of s' = sizes_of s \<and> (pool s' = pool s \<or> pool s' = (pool s)[j := GoDone])"
      by (cases "errChans s ! c") (auto simp: sched_step_def group_done_def sizes_of_def)
    with c0 cd j AllWorkerRecv show ?thesis
      by (auto simp: Closed_def step_origin_def)
  next
    case GoDone
    then have "(pool s)[j := GoDone] = pool s"
      by (metis list_update_id)
    with j GoDone C st show ?thesis by (auto simp: sched_step_def step_origin_def)
  qed
qed

text \<open>The two invariants together.\<close>

definition Wf :: "(pid \<Rightarrow> ('v, 'u) origin option) \<Rightarrow> ('v::default, 'u) state \<Rightarrow> bool" where
  "Wf og s \<longleftrightarrow> Inv s \<and> Prov og s \<and> Closed og s"

lemma sched_step_Wf:
  assumes "Wf og s"
  shows "\<exists>s'. sched_step j s = Ok s' \<and> Wf (step_origin j s og) s' \<and> og \<subseteq>\<^sub>m step_origin j s og \<and>
              evolves (heap s) (heap s') \<and> sizes_le (sizes_of s) (sizes_of s')"
proof -
  from assms have I: "Inv s" and P: "Prov og s" and C: "Closed og s" by (simp_all add: Wf_def)
  from sched_step_Inv [OF I, of j] obtain s' where
    st: "sched_step j s = Ok s'" and I': "Inv s'" and ev: "evolves (heap s) (heap s')" by blast
  from sched_step_Prov [OF I P st] sched_step_Closed [OF I C st] step_origin_le [OF P, of j] st I' ev
  show ?thesis by (auto simp: Wf_def)
qed

lemma run_sched_Wf:
  "Wf og s \<Longrightarrow> \<exists>s' og'. run_sched sched s = Ok s' \<and> Wf og' s' \<and> og \<subseteq>\<^sub>m og' \<and>
      evolves (heap s) (heap s') \<and> sizes_le (sizes_of s) (sizes_of s')"
proof (induction sched arbitrary: s og)
  case Nil
  then show ?case by auto
next
  case (Cons j sched)
  from sched_step_Wf [OF Cons.prems, of j] obtain s1 where
    1: "sched_step j s = Ok s1" "Wf (step_origin j s og) s1" "og \<subseteq>\<^sub>m step_origin j s og"
    "evolves (heap s) (heap s1)" "sizes_le (sizes_of s) (sizes_of s1)" by blast
  from Cons.IH [OF 1(2)] obtain s' og' where
    2: "run_sched sched s1 = Ok s'" "Wf og' s'" "step_origin j s og \<subseteq>\<^sub>m og'"
    "evolves (heap s1) (heap s')" "sizes_le (sizes_of s1) (sizes_of s')" by blast
  from 1 2 have "run_sched (j # sched) s = Ok s'" by simp
  moreover from 1(3) 2(3) have "og \<subseteq>\<^sub>m og'" by (rule map_le_trans)
  moreover from 1(4) 2(4) have "evolves (heap s) (heap s')" by (rule evolves_trans)
  moreover from 1(5) 2(5) have "sizes_le (sizes_of s) (sizes_of s')" by (rule sizes_le_trans)
  ultimately show ?case using 2(2) by blast
qed

lemma await_Wf:
  "Wf og s \<Longrightarrow> await ready sched s = Ok s' \<Longrightarrow>
   \<exists>og'. Wf og' s' \<and> og \<subseteq>\<^sub>m og' \<and> evolves (heap s) (heap s') \<and>
         sizes_le (sizes_of s) (sizes_of s') \<and> ready s'"
proof (induction sched arbitrary: s og)
  case Nil
  then show ?case by (auto split: if_splits)
next
  case (Cons j sched)
  show ?case
  proof (cases "ready s")
    case True
    with Cons.prems show ?thesis by auto
  next
    case False
    from sched_step_Wf [OF Cons.prems(1), of j] obtain s1 where
      1: "sched_step j s = Ok s1" "Wf (step_origin j s og) s1" "og \<subseteq>\<^sub>m step_origin j s og"
      "evolves (heap s) (heap s1)" "sizes_le (sizes_of s) (sizes_of s1)" by blast
    with Cons.prems(2) False have "await ready sched s1 = Ok s'" by simp
    from Cons.IH [OF 1(2) this] obtain og' where
      2: "Wf og' s'" "step_origin j s og \<subseteq>\<^sub>m og'" "evolves (heap s1) (heap s')"
      "sizes_le (sizes_of s1) (sizes_of s')" "ready s'" by blast
    from 1(3) 2(2) have "og \<subseteq>\<^sub>m og'" by (rule map_le_trans)
    moreover from 1(4) 2(3) have "evolves (heap s) (heap s')" by (rule evolves_trans)
    moreover from 1(5) 2(4) have "sizes_le (sizes_of s) (sizes_of s')" by (rule sizes_le_trans)
    ultimately show ?thesis using 2(1,5) by blast
  qed
qed

lemma Then_Wf:
  assumes W: "Wf og s" and p: "p < length (heap s)" and f: "fnT_closed (sizes_of s) f"
  shows "\<exists>s'. Then p f s = Ok (length (heap s), s') \<and>
           Wf (og(length (heap s) \<mapsto> FromThen p f)) s' \<and>
           og \<subseteq>\<^sub>m og(length (heap s) \<mapsto> FromThen p f) \<and>
           evolves (heap s) (heap s') \<and> sizes_of s' = sizes_of s"
proof -
  from W have I: "Inv s" and P: "Prov og s" and C: "Closed og s" by (simp_all add: Wf_def)
  from Then_Inv [OF I p, of f] obtain s' where
    t: "Then p f s = Ok (length (heap s), s')" and I': "Inv s'" and ev: "evolves (heap s) (heap s')"
    by blast
  from Then_Prov [OF I P p, of f] t have P': "Prov (og(length (heap s) \<mapsto> FromThen p f)) s'" by simp
  from Then_Closed [OF I C p t f] have C': "Closed (og(length (heap s) \<mapsto> FromThen p f)) s'" .
  from P have "og \<subseteq>\<^sub>m og(length (heap s) \<mapsto> FromThen p f)"
    unfolding Prov_def by (rule prov_le)
  moreover from Then_frames [OF I p t] have "sizes_of s' = sizes_of s" by (simp add: sizes_of_def)
  ultimately show ?thesis using t I' P' C' ev by (auto simp: Wf_def)
qed

lemma Catch_Wf:
  assumes W: "Wf og s" and p: "p < length (heap s)" and f: "fnE_closed (sizes_of s) f"
  shows "\<exists>s'. Catch p f s = Ok (length (heap s), s') \<and>
           Wf (og(length (heap s) \<mapsto> FromCatch p f)) s' \<and>
           og \<subseteq>\<^sub>m og(length (heap s) \<mapsto> FromCatch p f) \<and>
           evolves (heap s) (heap s') \<and> sizes_of s' = sizes_of s"
proof -
  from W have I: "Inv s" and P: "Prov og s" and C: "Closed og s" by (simp_all add: Wf_def)
  from Catch_Inv [OF I p, of f] obtain s' where
    t: "Catch p f s = Ok (length (heap s), s')" and I': "Inv s'" and ev: "evolves (heap s) (heap s')"
    by blast
  from Catch_Prov [OF I P p, of f] t have P': "Prov (og(length (heap s) \<mapsto> FromCatch p f)) s'" by simp
  from Catch_Closed [OF I C p t f] have C': "Closed (og(length (heap s) \<mapsto> FromCatch p f)) s'" .
  from P have "og \<subseteq>\<^sub>m og(length (heap s) \<mapsto> FromCatch p f)"
    unfolding Prov_def by (rule prov_le)
  moreover from Catch_frames [OF I p t] have "sizes_of s' = sizes_of s" by (simp add: sizes_of_def)
  ultimately show ?thesis using t I' P' C' ev by (auto simp: Wf_def)
qed

lemma Wf_alloc:
  assumes "Wf og s"
  shows "Wf og (s\<lparr>errChans := errChans s @ [x]\<rparr>)" "Wf og (s\<lparr>alls := alls s @ [y]\<rparr>)"
    "Wf og (s\<lparr>iters := iters s @ [z]\<rparr>)" "Wf og (s\<lparr>races := races s @ [w]\<rparr>)"
  using assms closed_mono [OF _ sizes_le_alloc(1), of og s "pool s" x]
    closed_mono [OF _ sizes_le_alloc(2), of og s "pool s" y]
    closed_mono [OF _ sizes_le_alloc(3), of og s "pool s" z]
    closed_mono [OF _ sizes_le_alloc(4), of og s "pool s" w]
  by (simp_all add: Wf_def Closed_def)

lemma Wf_frame_update:
  assumes "Wf og s"
  shows "Wf og (s\<lparr>iters := (iters s)[k := it]\<rparr>)" "Wf og (s\<lparr>races := (races s)[r := rf]\<rparr>)"
  using assms by (simp_all add: Wf_def Closed_def)

lemma prov_append_free:
  assumes "prov og ws P h L" "list_all (go_prov og h) gs"
  shows "prov og ws (P @ gs) h L"
proof -
  have "set (targets ws P h) \<subseteq> set (targets ws (P @ gs) h)"
    by (auto simp: targets_def)
  with assms(1) have "live_prov og ws (P @ gs) h"
    unfolding prov_def live_prov_def by blast
  with assms show ?thesis by (simp add: prov_def)
qed

lemma All_begin_Wf:
  assumes W: "Wf og s" and ps: "list_all (\<lambda>p. p < length (heap s)) ps"
  shows "Wf og (snd (All_begin ps s)) \<and> heap (snd (All_begin ps s)) = heap s"
proof -
  let ?gs = "map (\<lambda>i. AllWorkerThen (length (alls s)) i (ps ! i)) [0..<length ps]"
  let ?s' = "snd (All_begin ps s)"
  from W have I: "Inv s" and P: "Prov og s" and C: "Closed og s" by (simp_all add: Wf_def)
  have 1: "Inv ?s'" "heap ?s' = heap s" using All_begin_Inv [OF I ps] by simp_all
  have "list_all (go_prov og (heap s)) ?gs" by (simp add: list_all_iff)
  with P have 2: "Prov og ?s'"
    by (simp add: Prov_def All_begin_def prov_append_free)
  have z: "sizes_le (sizes_of s) (sizes_of ?s')"
    by (simp add: All_begin_def sizes_le_def sizes_of_def)
  have "list_all (go_closed (sizes_of ?s')) ?gs"
    by (simp add: list_all_iff All_begin_def sizes_of_def)
  with closed_mono [OF _ z, of og "pool s"] C have 3: "Closed og ?s'"
    by (simp add: Closed_def All_begin_def closed_def)
  from 1 2 3 show ?thesis by (simp add: Wf_def)
qed

lemma All_Wf:
  assumes "Wf og s" "list_all (\<lambda>p. p < length (heap s)) ps" "All ps sched s = Ok (r, s')"
  shows "\<exists>og'. Wf og' s' \<and> og \<subseteq>\<^sub>m og' \<and> evolves (heap s) (heap s')"
proof -
  obtain a s1 where b: "All_begin ps s = (a, s1)" by (cases "All_begin ps s")
  with All_begin_Wf [OF assms(1,2)] have 1: "Wf og s1" "heap s1 = heap s" by auto
  from assms(3) b obtain s2 where "await (\<lambda>t. group_running (alls t ! a) = 0) sched s1 = Ok s2" "s' = s2"
    by (auto simp: All_def obind_Ok_iff)
  with await_Wf [OF 1(1)] 1(2) show ?thesis by fastforce
qed

lemma race_loop_Wf:
  "Wf og s \<Longrightarrow> list_all (\<lambda>p. p < length (heap s)) ps \<Longrightarrow> r < length (races s) \<Longrightarrow>
   race_loop r ps cs s = Ok (cs', s') \<Longrightarrow>
   \<exists>og'. Wf og' s' \<and> og \<subseteq>\<^sub>m og' \<and> evolves (heap s) (heap s')"
proof (induction ps arbitrary: s cs og)
  case Nil
  then show ?case by auto
next
  case (Cons p ps)
  from Cons.prems(4) obtain s1 q1 s2 s3 q2 s4 where
    1: "run_sched (fst (next_chunk cs)) s = Ok s1"
    and 2: "Then p (RaceThenFn r) s1 = Ok (q1, s2)"
    and 3: "run_sched (fst (next_chunk (snd (next_chunk cs)))) s2 = Ok s3"
    and 4: "Catch p (RaceCatchFn r) s3 = Ok (q2, s4)"
    and 5: "race_loop r ps (snd (next_chunk (snd (next_chunk cs)))) s4 = Ok (cs', s')"
    by (auto simp: obind_Ok_iff)
  from run_sched_Wf [OF Cons.prems(1), of "fst (next_chunk cs)"] 1 obtain og1 where
    a: "Wf og1 s1" "og \<subseteq>\<^sub>m og1" "evolves (heap s) (heap s1)" "sizes_le (sizes_of s) (sizes_of s1)"
    by auto
  from Cons.prems(2) evolves_length [OF a(3)] have p1: "p < length (heap s1)" by simp
  from a(4) Cons.prems(3) have r1: "r < length (races s1)" by (simp add: sizes_le_def sizes_of_def)
  then have "fnT_closed (sizes_of s1) (RaceThenFn r)" by (simp add: sizes_of_def)
  from Then_Wf [OF a(1) p1 this] 2 obtain og2 where
    b: "Wf og2 s2" "og1 \<subseteq>\<^sub>m og2" "evolves (heap s1) (heap s2)" "sizes_of s2 = sizes_of s1"
    by auto
  from run_sched_Wf [OF b(1), of "fst (next_chunk (snd (next_chunk cs)))"] 3 obtain og3 where
    c: "Wf og3 s3" "og2 \<subseteq>\<^sub>m og3" "evolves (heap s2) (heap s3)" "sizes_le (sizes_of s2) (sizes_of s3)"
    by auto
  from p1 evolves_length [OF b(3)] evolves_length [OF c(3)] have p3: "p < length (heap s3)" by simp
  from c(4) b(4) r1 have r3: "r < length (races s3)" by (simp add: sizes_le_def sizes_of_def)
  then have "fnE_closed (sizes_of s3) (RaceCatchFn r)" by (simp add: sizes_of_def)
  from Catch_Wf [OF c(1) p3 this] 4 obtain og4 where
    d: "Wf og4 s4" "og3 \<subseteq>\<^sub>m og4" "evolves (heap s3) (heap s4)" "sizes_of s4 = sizes_of s3"
    by auto
  have e: "evolves (heap s) (heap s4)"
    using a(3) b(3) c(3) d(3) by (blast intro: evolves_trans)
  have le: "og \<subseteq>\<^sub>m og4"
    using a(2) b(2) c(2) d(2) by (blast intro: map_le_trans)
  have "list_all (\<lambda>p. p < length (heap s4)) ps"
    using Cons.prems(2) evolves_length [OF e] by (auto simp: list_all_iff)
  moreover from d(4) r3 have "r < length (races s4)" by (simp add: sizes_of_def)
  ultimately obtain og' where "Wf og' s'" "og4 \<subseteq>\<^sub>m og'" "evolves (heap s4) (heap s')"
    using Cons.IH [OF d(1) _ _ 5] by blast
  with e le show ?case by (blast intro: evolves_trans map_le_trans)
qed

lemma Race_Wf:
  assumes "Wf og s" "list_all (\<lambda>p. p < length (heap s)) ps" "Race ps sched s = Ok (r, s')"
  shows "\<exists>og'. Wf og' s' \<and> og \<subseteq>\<^sub>m og' \<and> evolves (heap s) (heap s')"
proof (cases "ps = []")
  case True
  with assms show ?thesis by (auto simp: Race_def)
next
  case False
  let ?s0 = "s\<lparr>races := races s @ [\<lparr>race_done = False, race_res = default, errorCh = []\<rparr>]\<rparr>"
  from assms(3) False obtain cs s1 s2 where
    1: "race_loop (length (races s)) ps sched ?s0 = Ok (cs, s1)"
    and 2: "await (\<lambda>t. errorCh (races t ! length (races s)) \<noteq> []) (concat cs) s1 = Ok s2"
    and 3: "s' = s2\<lparr>races := (races s2)[length (races s) := (races s2 ! length (races s))
                 \<lparr>errorCh := tl (errorCh (races s2 ! length (races s)))\<rparr>]\<rparr>"
    by (auto simp: Race_def Let_def obind_Ok_iff)
  have "Wf og ?s0" using assms(1) by (rule Wf_alloc)
  from race_loop_Wf [OF this _ _ 1] assms(2) obtain og1 where
    a: "Wf og1 s1" "og \<subseteq>\<^sub>m og1" "evolves (heap s) (heap s1)" by auto
  from await_Wf [OF a(1) 2] obtain og2 where
    b: "Wf og2 s2" "og1 \<subseteq>\<^sub>m og2" "evolves (heap s1) (heap s2)" by auto
  from b(1) have "Wf og2 s'" unfolding 3 by (rule Wf_frame_update)
  with a b 3 show ?thesis by (auto intro: evolves_trans map_le_trans)
qed

lemma iter_next_Wf:
  assumes "Wf og s" "list_all (\<lambda>p. p < length (heap s)) (promises it)"
    and "iter_next it sched s = Ok (r, it', s')"
  shows "\<exists>og'. Wf og' s' \<and> og \<subseteq>\<^sub>m og' \<and> evolves (heap s) (heap s')"
proof (cases "index it = length (promises it)")
  case True
  with assms show ?thesis by (auto simp: iter_next_def)
next
  case False
  let ?p = "promises it ! index it"
  from assms(1) have I: "Inv s" by (simp add: Wf_def)
  from assms(3) False have "Resolve ?p s \<noteq> Panic"
    by (auto simp: iter_next_def)
  then have p: "?p < length (heap s)" by (auto simp: Resolve_def Lock_def split: if_splits)
  note R = Resolve_Inv [OF I p]
  show ?thesis
  proof (cases "notDone (heap s ! ?p)")
    case nd: False
    with assms(1,3) False R show ?thesis by (auto simp: iter_next_def)
  next
    case nd: True
    let ?k = "length (iters s)"
    let ?s2 = "s\<lparr>iters := iters s @ [\<lparr>iter_val = default, iter_err = None, waitCh = []\<rparr>]\<rparr>"
    from assms(3) False R nd obtain s3 q1 s4 s5 q2 s6 s7 where
      1: "run_sched (fst (next_chunk sched)) ?s2 = Ok s3"
      and 2: "Then ?p (IterThenFn ?k) s3 = Ok (q1, s4)"
      and 3: "run_sched (fst (next_chunk (snd (next_chunk sched)))) s4 = Ok s5"
      and 4: "Catch ?p (IterCatchFn ?k) s5 = Ok (q2, s6)"
      and 5: "await (\<lambda>t. waitCh (iters t ! ?k) \<noteq> []) (concat (snd (next_chunk (snd (next_chunk sched))))) s6 = Ok s7"
      and 6: "s' = s7\<lparr>iters := (iters s7)[?k := (iters s7 ! ?k)\<lparr>waitCh := tl (waitCh (iters s7 ! ?k))\<rparr>]\<rparr>"
      by (auto simp: iter_next_def Let_def obind_Ok_iff)
    have W2: "Wf og ?s2" using assms(1) by (rule Wf_alloc)
    from run_sched_Wf [OF W2, of "fst (next_chunk sched)"] 1 obtain og3 where
      a: "Wf og3 s3" "og \<subseteq>\<^sub>m og3" "evolves (heap s) (heap s3)" "sizes_le (sizes_of ?s2) (sizes_of s3)"
      by auto
    from p evolves_length [OF a(3)] have p3: "?p < length (heap s3)" by simp
    from a(4) have k3: "?k < length (iters s3)" by (simp add: sizes_le_def sizes_of_def)
    then have "fnT_closed (sizes_of s3) (IterThenFn ?k)" by (simp add: sizes_of_def)
    from Then_Wf [OF a(1) p3 this] 2 obtain og4 where
      b: "Wf og4 s4" "og3 \<subseteq>\<^sub>m og4" "evolves (heap s3) (heap s4)" "sizes_of s4 = sizes_of s3"
      by auto
    from run_sched_Wf [OF b(1), of "fst (next_chunk (snd (next_chunk sched)))"] 3 obtain og5 where
      c: "Wf og5 s5" "og4 \<subseteq>\<^sub>m og5" "evolves (heap s4) (heap s5)" "sizes_le (sizes_of s4) (sizes_of s5)"
      by auto
    from p3 evolves_length [OF b(3)] evolves_length [OF c(3)] have p5: "?p < length (heap s5)" by simp
    from c(4) b(4) k3 have "?k < length (iters s5)" by (simp add: sizes_le_def sizes_of_def)
    then have "fnE_closed (sizes_of s5) (IterCatchFn ?k)" by (simp add: sizes_of_def)
    from Catch_Wf [OF c(1) p5 this] 4 obtain og6 where
      d: "Wf og6 s6" "og5 \<subseteq>\<^sub>m og6" "evolves (heap s5) (heap s6)" by auto
    from await_Wf [OF d(1) 5] obtain og7 where
      e: "Wf og7 s7" "og6 \<subseteq>\<^sub>m og7" "evolves (heap s6) (heap s7)" by auto
    have "evolves (heap s) (heap s7)"
      using a(3) b(3) c(3) d(3) e(3) by (blast intro: evolves_trans)
    moreover have "og \<subseteq>\<^sub>m og7"
      using a(2) b(2) c(2) d(2) e(2) by (blast intro: map_le_trans)
    moreover from e(1) have "Wf og7 s'" unfolding 6 by (rule Wf_frame_update)
    ultimately show ?thesis using 6 by auto
  qed
qed

lemma NewFn_Wf:
  assumes W: "Wf og s"
  shows "Wf og (snd (NewFn (UserProducer g) s)) \<and> evolves (heap s) (heap (snd (NewFn (UserProducer g) s)))"
proof -
  from W have I: "Inv s" and P: "Prov og s" and C: "Closed og s" by (simp_all add: Wf_def)
  from NewFn_Inv [OF I, of "UserProducer g"]
  have 1: "Inv (snd (NewFn (UserProducer g) s))"
    "evolves (heap s) (heap (snd (NewFn (UserProducer g) s)))" by simp_all
  from C have "Closed og (snd (NewFn (UserProducer g) s))"
    by (simp add: Closed_def NewFn_simp closed_def)
  with 1 NewFn_Prov [OF P, of g] show ?thesis by (simp add: Wf_def)
qed

lemma new_settled_Wf:
  assumes W: "Wf og s" and X: "promise_ok X" "\<not> doneMu X" "promise_targets X = []"
    "promise_prov og (length (heap s)) X"
  shows "Wf og (snd (new_promise X s)) \<and> evolves (heap s) (heap (snd (new_promise X s)))"
proof -
  from W have I: "Inv s" and P: "Prov og s" and C: "Closed og s" by (simp_all add: Wf_def)
  from C have "Closed og (snd (new_promise X s))"
    by (simp add: Closed_def new_promise_def)
  with new_settled_Inv [OF I X(1-3)] new_settled_Prov [OF P X(4)] show ?thesis
    by (simp add: Wf_def)
qed

lemma perform_Wf:
  assumes W: "Wf og s" and p: "perform x s = Ok s'"
  shows "\<exists>og'. Wf og' s' \<and> og \<subseteq>\<^sub>m og' \<and> evolves (heap s) (heap s')"
proof (cases x)
  case (OpStep i)
  with sched_step_Wf [OF W, of i] p show ?thesis by auto
next
  case OpZeroValue
  with new_settled_Wf [OF W, of zero_promise] p show ?thesis by auto
next
  case (OpNewFn g)
  with NewFn_Wf [OF W, of g] p show ?thesis by auto
next
  case (OpNewResolved v)
  with new_settled_Wf [OF W, of "zero_promise\<lparr>res := v\<rparr>"] p show ?thesis
    by (auto simp: NewResolved_def)
next
  case (OpNewRejected e)
  with new_settled_Wf [OF W, of "zero_promise\<lparr>err := e\<rparr>"] p show ?thesis
    by (auto simp: NewRejected_def)
next
  case (OpThen q g)
  with p obtain n where t: "Then q (UserFn g) s = Ok (n, s')" by (auto simp: obind_Ok_iff)
  from Then_Wf [OF W Then_valid [OF t], of "UserFn g"] t show ?thesis by auto
next
  case (OpCatch q g)
  with p obtain n where t: "Catch q (UserErrFn g) s = Ok (n, s')" by (auto simp: obind_Ok_iff)
  from Catch_Wf [OF W Catch_valid [OF t], of "UserErrFn g"] t show ?thesis by auto
next
  case (OpResolve q)
  with p obtain r where t: "Resolve q s = Ok (r, s')" by (auto simp: obind_Ok_iff)
  from W have I: "Inv s" by (simp add: Wf_def)
  from Resolve_Inv [OF I Resolve_valid [OF t]] t W show ?thesis by auto
next
  case (OpAll ps sched)
  with p obtain r where "exist s ps" "All ps sched s = Ok (r, s')"
    by (auto simp: obind_Ok_iff split: if_splits)
  with All_Wf [OF W] show ?thesis by (auto simp: exist_def)
next
  case (OpRace ps sched)
  with p obtain r where "exist s ps" "Race ps sched s = Ok (r, s')"
    by (auto simp: obind_Ok_iff split: if_splits)
  with Race_Wf [OF W] show ?thesis by (auto simp: exist_def)
next
  case (OpIterNext it sched)
  with p obtain r it' where "exist s (promises it)" "iter_next it sched s = Ok (r, it', s')"
    by (auto simp: obind_Ok_iff split: if_splits)
  with iter_next_Wf [OF W] show ?thesis by (auto simp: exist_def)
qed

lemma perform_all_Wf:
  "Wf og s \<Longrightarrow> perform_all xs s = Ok s' \<Longrightarrow>
   \<exists>og'. Wf og' s' \<and> og \<subseteq>\<^sub>m og' \<and> evolves (heap s) (heap s')"
proof (induction xs arbitrary: s og)
  case Nil
  then show ?case by auto
next
  case (Cons x xs)
  from Cons.prems(2) obtain s1 where 1: "perform x s = Ok s1" and 2: "perform_all xs s1 = Ok s'"
    by (auto simp: obind_Ok_iff)
  from perform_Wf [OF Cons.prems(1) 1] obtain og1 where
    a: "Wf og1 s1" "og \<subseteq>\<^sub>m og1" "evolves (heap s) (heap s1)" by blast
  from Cons.IH [OF a(1) 2] obtain og' where
    b: "Wf og' s'" "og1 \<subseteq>\<^sub>m og'" "evolves (heap s1) (heap s')" by blast
  from a b show ?case by (blast intro: evolves_trans map_le_trans)
qed

lemma Wf_init: "Wf Map.empty (init_state w)"
  using Inv_init [of w]
  by (simp add: Wf_def Prov_def prov_def Closed_def closed_def init_state_def result_prov_def
      live_prov_def)

lemma reachable_Wf: "perform_all xs (init_state w) = Ok s \<Longrightarrow> \<exists>og. Wf og s"
  using perform_all_Wf [OF Wf_init, of xs w s] by blast

section \<open>Then on a promise that fails\<close>

lemma distinct_concat_nth:
  "distinct (concat xs) \<Longrightarrow> i < length xs \<Longrightarrow> j < length xs \<Longrightarrow> i \<noteq> j \<Longrightarrow>
   set (xs ! i) \<inter> set (xs ! j) = {}"
proof (induction xs arbitrary: i j)
  case Nil
  then show ?case by simp
next
  case (Cons a xs)
  show ?case
  proof (cases i)
    case 0
    with Cons.prems obtain j' where "j = Suc j'" "j' < length xs" by (cases j) auto
    with 0 Cons.prems(1) nth_mem [of j' xs] show ?thesis by fastforce
  next
    case (Suc i')
    show ?thesis
    proof (cases j)
      case 0
      with Suc Cons.prems(1,2) nth_mem [of i' xs] show ?thesis by fastforce
    next
      case (Suc j')
      with \<open>i = Suc i'\<close> Cons.prems Cons.IH [of i' j'] show ?thesis by simp
    qed
  qed
qed

lemma in_concat_nth:
  assumes "a \<in> set (concat (map f xs))"
  shows "\<exists>i < length xs. a \<in> set (f (xs ! i))"
proof -
  from assms obtain y where "y \<in> set xs" "a \<in> set (f y)" by auto
  then show ?thesis by (metis in_set_conv_nth)
qed

text \<open>
  What the invariants say about a promise \<open>q\<close> that \<^verbatim>\<open>Then\<close> derived from a promise \<open>p\<close>
  which has failed.
\<close>

lemma then_derived_facts:
  assumes W: "Wf og s" and o: "og q = Some (FromThen p f)"
    and p: "p < length (heap s)" "\<not> notDone (heap s ! p)" "err (heap s ! p) = Some e"
  shows "q \<notin> called_for ` set (invoked s)"
    and "q < length (heap s)"
    and "\<not> notDone (heap s ! q) \<Longrightarrow> res (heap s ! q) = default \<and> err (heap s ! q) = Some e"
    and "notDone (heap s ! q) \<Longrightarrow> \<exists>j < length (pool s). q \<in> set (go_targets (pool s ! j))"
proof -
  from W have pr: "prov og [] (pool s) (heap s) (invoked s)" by (simp add: Wf_def Prov_def)
  then have pp: "\<forall>x < length (heap s). promise_prov og x (heap s ! x)"
    and lp: "list_all (entry_prov og (heap s)) (invoked s)"
    and rp: "result_prov og (heap s)" and lv: "live_prov og [] (pool s) (heap s)"
    and dm: "\<forall>q. og q \<noteq> None \<longrightarrow> q < length (heap s)"
    by (simp_all add: prov_def)
  show "q \<notin> called_for ` set (invoked s)"
  proof
    assume "q \<in> called_for ` set (invoked s)"
    then obtain x where x: "x \<in> set (invoked s)" "called_for x = q" by auto
    with lp have "entry_prov og (heap s) x" by (simp add: list_all_iff)
    with x(2) o p show False by (cases x) (auto simp: settled_as_def)
  qed
  from dm o show "q < length (heap s)" by auto
  show "res (heap s ! q) = default \<and> err (heap s ! q) = Some e" if "\<not> notDone (heap s ! q)"
    using rp o that p unfolding result_prov_def by fastforce
  show "\<exists>j < length (pool s). q \<in> set (go_targets (pool s ! j))" if "notDone (heap s ! q)"
  proof -
    from lv o that have "q \<in> set (targets [] (pool s) (heap s))"
      unfolding live_prov_def by blast
    then consider "q \<in> set (concat (map go_targets (pool s)))"
      | "q \<in> set (concat (map promise_targets (heap s)))"
      by (auto simp: targets_def)
    then show ?thesis
    proof cases
      case 1
      then show ?thesis by (rule in_concat_nth)
    next
      case 2
      from in_concat_nth [OF this]
      obtain y where y: "y < length (heap s)" "q \<in> set (promise_targets (heap s ! y))"
        by blast
      then obtain hn where hn: "hn \<in> set (handlers_in (errorList (heap s ! y)))" "q \<in> set (err_target hn)"
        by (auto simp: promise_targets_def)
      from pp y(1) have py: "promise_prov og y (heap s ! y)" by simp
      with hn(1) have "err_hn_ok og y hn" by (simp add: promise_prov_def)
      with err_target_cases [OF hn(2)] o have "y = p" by auto
      with py p(2) y(2) show ?thesis by (simp add: promise_prov_def)
    qed
  qed
qed

lemma sched_step_GoPass_pool:
  assumes "sched_step j s = Ok s'" "j < length (pool s)" "pool s ! j = GoPass x r e thl erl"
  shows "pool s' = (pool s)[j := GoDone]"
proof -
  from assms obtain ws s1 s2 where pb: "pass_begin x r e thl erl s = Ok (ws, s1)"
    and r: "run ws s1 = Ok s2" and s': "s' = s2\<lparr>pool := (pool s2)[j := GoDone]\<rparr>"
    by (auto simp: sched_step_def call_pass_def obind_Ok_iff)
  from pb have "pool s1 = pool s" by (auto simp: pass_begin_Ok)
  with run_pool [OF r] s' show ?thesis by simp
qed

lemma sched_step_GoCall_settles:
  assumes "sched_step j s = Ok s'" "j < length (pool s)" "pool s ! j = GoCall q f"
  shows "\<not> notDone (heap s' ! q)"
proof -
  from assms obtain r e thl erl s1 where cs: "call_settle q f s = Ok ((r, e, thl, erl), s1)"
    and s': "s' = s1\<lparr>pool := (pool s1)[j := GoPass q r e thl erl]\<rparr>"
    by (auto simp: sched_step_def obind_Ok_iff)
  from call_settle_heap [OF cs] s' show ?thesis by simp
qed

text \<open>One step of the goroutine that holds the dispatch settles the derived promise.\<close>

lemma then_derived_settles:
  assumes W: "Wf og s" and o: "og q = Some (FromThen p f)"
    and p: "p < length (heap s)" "\<not> notDone (heap s ! p)" "err (heap s ! p) = Some e"
  shows "\<exists>j s'. sched_step j s = Ok s' \<and> Inv s' \<and> q < length (heap s') \<and>
           \<not> notDone (heap s' ! q) \<and> res (heap s' ! q) = default \<and> err (heap s' ! q) = Some e"
proof (cases "notDone (heap s ! q)")
  case False
  from W have "Inv s" by (simp add: Wf_def)
  moreover have "sched_step (length (pool s)) s = Ok s" by (simp add: sched_step_def)
  ultimately show ?thesis
    using then_derived_facts(2,3) [OF W o p] False by blast
next
  case True
  from then_derived_facts(4) [OF W o p True] obtain j where
    j: "j < length (pool s)" "q \<in> set (go_targets (pool s ! j))" by blast
  from sched_step_Wf [OF W, of j] obtain s' where
    st: "sched_step j s = Ok s'" and W': "Wf (step_origin j s og) s'"
    and le: "og \<subseteq>\<^sub>m step_origin j s og" and ev: "evolves (heap s) (heap s')" by blast
  from le o have o': "step_origin j s og q = Some (FromThen p f)"
    by (auto simp: map_le_def dom_def)
  from ev p have p': "p < length (heap s')" "\<not> notDone (heap s' ! p)" "err (heap s' ! p) = Some e"
    by (auto simp: evolves_def)
  have d: "\<not> notDone (heap s' ! q)"
  proof
    assume nd: "notDone (heap s' ! q)"
    from then_derived_facts(4) [OF W' o' p' nd] obtain j' where
      j': "j' < length (pool s')" "q \<in> set (go_targets (pool s' ! j'))" by blast
    show False
    proof (cases "pool s ! j")
      case (GoCall t f0)
      with j(2) have "t = q" by simp
      with sched_step_GoCall_settles [OF st j(1)] GoCall nd show False by simp
    next
      case (GoPass x r e' thl erl)
      from sched_step_GoPass_pool [OF st j(1) GoPass] have ps: "pool s' = (pool s)[j := GoDone]" .
      with j' j(1) have jj: "j' \<noteq> j" "j' < length (pool s)" by auto
      with ps j'(2) have "q \<in> set (go_targets (pool s ! j'))" by simp
      moreover from W have "distinct (concat (map go_targets (pool s)))"
        by (simp add: Wf_def Inv_def inv_def targets_ok_def targets_def)
      from distinct_concat_nth [OF this, of j j'] j(1) jj
      have "set (go_targets (pool s ! j)) \<inter> set (go_targets (pool s ! j')) = {}" by simp
      ultimately show False using j(2) by blast
    qed (use j(2) in simp_all)
  qed
  from W' have "Inv s'" by (simp add: Wf_def)
  with st d then_derived_facts(2,3) [OF W' o' p'] show ?thesis by blast
qed

text \<open>
  Claim C4. In a state that the operations of the package can reach, \<^verbatim>\<open>Then\<close> is called on
  a promise \<open>p\<close> with a function \<open>g\<close> of the caller and returns the promise \<open>q\<close>; the
  callers and the goroutines go on, and \<open>p\<close> is then found settled with the error \<open>e\<close>,
  which is not nil. Then \<open>g\<close> has not been called for \<open>q\<close>; if \<open>q\<close> is settled, it is settled
  with the zero value and the error \<open>e\<close>; and if it is not settled yet, one step of a
  goroutine settles it so. This holds when \<open>p\<close> was pending at the call, where \<^verbatim>\<open>Then\<close>
  spawns nothing and leaves the closure \<^verbatim>\<open>catchHn\<close> in the failure list of \<open>p\<close>, and
  when \<open>p\<close> was settled already, where \<^verbatim>\<open>Then\<close> spawns the goroutine that dispatches on the
  error.
\<close>

theorem Then_hands_on_failure:
  assumes "perform_all before (init_state w) = Ok s"
    and "Then p (UserFn g) s = Ok (q, s1)"
    and "perform_all after s1 = Ok s2"
    and "Resolve p s2 = Ok (Some \<lparr>Result = r, Error = Some e\<rparr>, t)"
  shows "q \<notin> called_for ` set (invoked s2) \<and>
         (Resolve q s2 = Ok (None, s2) \<or>
          Resolve q s2 = Ok (Some \<lparr>Result = default, Error = Some e\<rparr>, s2)) \<and>
         (\<exists>j s3. sched_step j s2 = Ok s3 \<and>
            Resolve q s3 = Ok (Some \<lparr>Result = default, Error = Some e\<rparr>, s3)) \<and>
         (if notDone (heap s ! p)
          then pool s1 = pool s \<and> ThenCatchHn q \<in> set (handlers_in (errorList (heap s1 ! p)))
          else pool s1 = pool s @
                 [GoCall q (ThenDoneBody p (err (heap s ! p)) (res (heap s ! p)) (UserFn g))])"
proof -
  from reachable_Wf [OF assms(1)] obtain og where W: "Wf og s" by blast
  then have I: "Inv s" by (simp add: Wf_def)
  from Then_valid [OF assms(2)] have p: "p < length (heap s)" .
  from Then_Wf [OF W p, of "UserFn g"] assms(2)
  have q: "q = length (heap s)" and W1: "Wf (og(q \<mapsto> FromThen p (UserFn g))) s1" by auto
  from perform_all_Wf [OF W1 assms(3)] obtain og2 where
    W2: "Wf og2 s2" and le: "og(q \<mapsto> FromThen p (UserFn g)) \<subseteq>\<^sub>m og2" by blast
  from le have o: "og2 q = Some (FromThen p (UserFn g))"
    by (auto simp: map_le_def dom_def)
  from W2 have I2: "Inv s2" by (simp add: Wf_def)
  from Resolve_valid [OF assms(4)] have p2: "p < length (heap s2)" .
  from Resolve_Inv [OF I2 p2] assms(4)
  have f: "\<not> notDone (heap s2 ! p)" "err (heap s2 ! p) = Some e"
    by (auto split: if_splits)
  note facts = then_derived_facts [OF W2 o p2 f]
  have 1: "q \<notin> called_for ` set (invoked s2)" by (rule facts(1))
  have 2: "Resolve q s2 = Ok (None, s2) \<or>
           Resolve q s2 = Ok (Some \<lparr>Result = default, Error = Some e\<rparr>, s2)"
    using Resolve_Inv [OF I2 facts(2)] facts(3) by auto
  from then_derived_settles [OF W2 o p2 f] obtain j s3 where
    "sched_step j s2 = Ok s3" "Inv s3" "q < length (heap s3)" "\<not> notDone (heap s3 ! q)"
    "res (heap s3 ! q) = default" "err (heap s3 ! q) = Some e" by blast
  with Resolve_Inv [of s3 q]
  have 3: "\<exists>j s3. sched_step j s2 = Ok s3 \<and>
             Resolve q s3 = Ok (Some \<lparr>Result = default, Error = Some e\<rparr>, s3)"
    by auto
  have 4: "if notDone (heap s ! p)
          then pool s1 = pool s \<and> ThenCatchHn q \<in> set (handlers_in (errorList (heap s1 ! p)))
          else pool s1 = pool s @
                 [GoCall q (ThenDoneBody p (err (heap s ! p)) (res (heap s ! p)) (UserFn g))]"
  proof (cases "notDone (heap s ! p)")
    case True
    from Inv_promise [OF I p] True obtain thl erl where
      l: "thenList (heap s ! p) = Some thl" "errorList (heap s ! p) = Some erl"
      by (auto simp: promise_ok_def)
    from Then_pending [OF p Inv_promise(2) [OF I p] True l, of "UserFn g"] assms(2) True p
    show ?thesis by (auto simp: nth_append handlers_in_def)
  next
    case False
    from Then_done [OF p Inv_promise(2) [OF I p] False, of "UserFn g"] assms(2) False
    show ?thesis by (auto simp: NewFn_simp)
  qed
  from 1 2 3 4 show ?thesis by blast
qed

text \<open>
  An instance: the promise of a function that returns \<open>(7, boom)\<close>, \<^verbatim>\<open>Then\<close> before its
  goroutine has run, and two steps of that goroutine. The function given to \<^verbatim>\<open>Then\<close> would
  have counted its calls in the caller's variable.
\<close>

theorem Then_hands_on_failure_witness:
  "\<exists>s s1 s2 :: (int, nat) state.
     perform_all [OpNewFn (\<lambda>w. ((7, Some (ErrorString ''boom'')), w))] (init_state 0) = Ok s \<and>
     Then 0 (UserFn (\<lambda>v w. ((v + 1, None), Suc w))) s = Ok (1, s1) \<and>
     perform_all [OpStep 0, OpStep 0] s1 = Ok s2 \<and>
     Resolve 0 s2 = Ok (Some \<lparr>Result = 7, Error = Some (ErrorString ''boom'')\<rparr>, s2) \<and>
     Resolve 1 s2 = Ok (Some \<lparr>Result = 0, Error = Some (ErrorString ''boom'')\<rparr>, s2) \<and>
     1 \<notin> called_for ` set (invoked s2) \<and> world s2 = 0"
proof -
  define s :: "(int, nat) state"
    where "s = snd (NewFn (UserProducer (\<lambda>w. ((7, Some (ErrorString ''boom'')), w))) (init_state 0))"
  define s1 where "s1 = (case Then 0 (UserFn (\<lambda>v w. ((v + 1, None), Suc w))) s of
                          Ok (q, t) \<Rightarrow> t | Panic \<Rightarrow> s | Blocked \<Rightarrow> s)"
  define s2 where "s2 = (case perform_all [OpStep 0, OpStep 0] s1 of
                          Ok t \<Rightarrow> t | Panic \<Rightarrow> s1 | Blocked \<Rightarrow> s1)"
  have a: "perform_all [OpNewFn (\<lambda>w. ((7, Some (ErrorString ''boom'')), w))] (init_state 0) = Ok s"
    by (simp add: s_def)
  have b: "Then 0 (UserFn (\<lambda>v w. ((v + 1, None), Suc w))) s = Ok (1, s1)"
    by (simp add: s1_def s_def NewFn_simp init_state_def Then_pending)
  have s1: "s1 = \<lparr>heap = [fresh_promise\<lparr>thenList := Some [ThenHn 1 (UserFn (\<lambda>v w. ((v + 1, None), Suc w)))],
                                         errorList := Some [ThenCatchHn 1]\<rparr>, fresh_promise],
                  pool = [GoCall 0 (UserProducer (\<lambda>w. ((7, Some (ErrorString ''boom'')), w)))],
                  world = 0, alls = [], errChans = [], races = [], iters = [], invoked = []\<rparr>"
    by (simp add: s1_def s_def NewFn_simp init_state_def Then_pending)
  have c0: "\<exists>t. perform_all [OpStep 0, OpStep 0] s1 = Ok t \<and>
              Resolve 0 t = Ok (Some \<lparr>Result = 7, Error = Some (ErrorString ''boom'')\<rparr>, t) \<and>
              world t = 0"
    unfolding s1
    by (simp add: sched_step_def call_settle_simp2 call_pass_def pass_begin_def LockDone_def
        handlers_work_def UnlockDone_def Resolve_simp default_int_def)
  then have c: "perform_all [OpStep 0, OpStep 0] s1 = Ok s2"
    and d: "Resolve 0 s2 = Ok (Some \<lparr>Result = 7, Error = Some (ErrorString ''boom'')\<rparr>, s2)"
    and e: "world s2 = 0"
    by (auto simp: s2_def)
  from Then_hands_on_failure [OF a b c d]
  have n: "1 \<notin> called_for ` set (invoked s2)"
    and r: "Resolve 1 s2 = Ok (None, s2) \<or>
            Resolve 1 s2 = Ok (Some \<lparr>Result = default, Error = Some (ErrorString ''boom'')\<rparr>, s2)"
    by blast+
  have "\<exists>t. perform_all [OpStep 0, OpStep 0] s1 = Ok t \<and> Resolve 1 t \<noteq> Ok (None, t)"
    unfolding s1
    by (simp add: sched_step_def call_settle_simp2 call_pass_def pass_begin_def LockDone_def
        handlers_work_def UnlockDone_def Resolve_simp default_int_def)
  with c have "Resolve 1 s2 \<noteq> Ok (None, s2)" by auto
  with r have "Resolve 1 s2 = Ok (Some \<lparr>Result = 0, Error = Some (ErrorString ''boom'')\<rparr>, s2)"
    by (simp add: default_int_def)
  with a b c d e n show ?thesis by blast
qed

section \<open>Properties of the captured variables that every step keeps\<close>






section \<open>The variables of the iterator's hook path\<close>

text \<open>
  The values that the closures over frame \<open>k\<close> have been called with, and what the frame
  holds in terms of them.
\<close>

definition then_vals :: "nat \<Rightarrow> ('v, 'u) invocation list \<Rightarrow> 'v set" where
  "then_vals k L = {v. \<exists>q. CalledThen q (IterThenFn k) v \<in> set L}"

definition catch_errs :: "nat \<Rightarrow> ('v, 'u) invocation list \<Rightarrow> goerror set" where
  "catch_errs k L = {e. \<exists>q. CalledCatch q (IterCatchFn k) e \<in> set L}"

definition iter_log_ok :: "nat \<Rightarrow> ('v::default) iter_frame \<Rightarrow> ('v, 'u) invocation list \<Rightarrow> bool" where
  "iter_log_ok k fr L \<longleftrightarrow>
     (then_vals k L = {} \<longrightarrow> iter_val fr = default) \<and>
     (then_vals k L \<noteq> {} \<longrightarrow> iter_val fr \<in> then_vals k L) \<and>
     (catch_errs k L = {} \<longrightarrow> iter_err fr = None) \<and>
     (catch_errs k L \<noteq> {} \<longrightarrow> iter_err fr \<in> catch_errs k L) \<and>
     (waitCh fr \<noteq> [] \<longleftrightarrow> then_vals k L \<noteq> {} \<or> catch_errs k L \<noteq> {})"

definition Replay :: "nat \<Rightarrow> ('v::default, 'u) state \<Rightarrow> bool" where
  "Replay k s \<longleftrightarrow> k < length (iters s) \<and> iter_log_ok k (iters s ! k) (invoked s)"



lemma Replay_fields [simp]:
  "Replay k (s\<lparr>heap := h\<rparr>) = Replay k s" "Replay k (s\<lparr>world := x\<rparr>) = Replay k s"
  "Replay k (s\<lparr>pool := P\<rparr>) = Replay k s" "Replay k (s\<lparr>errChans := c\<rparr>) = Replay k s"
  "Replay k (s\<lparr>alls := a\<rparr>) = Replay k s" "Replay k (s\<lparr>races := r\<rparr>) = Replay k s"
  by (simp_all add: Replay_def)



lemma Replay_snd_heap: "Replay k (snd (apply_fnT f v (s\<lparr>heap := h\<rparr>))) = Replay k (snd (apply_fnT f v s))"
  by (simp add: apply_fnT_heap_update)













section \<open>The hook path returns\<close>










section \<open>The iterator\<close>




end
